theory Spec2Isabelle
  imports Main "HOL-Library.Word" "HOL-Library.Multiset"
begin

section \<open>The social network generator: data model\<close>

text \<open>
  The program (files \<^verbatim>\<open>User.cpp\<close>, \<^verbatim>\<open>SocialNetwork.cpp\<close>) reads a list of user
  records, orders them by id, builds a square matrix of "follows" relationships and asks
  it, for every user, who follows them and who follows them back.

  An \<^verbatim>\<open>unsigned int\<close> is a 32-bit word: \<open>id - 1\<close> wraps around at id 0, and a counter
  wraps at \<open>2^32\<close>. An \<^verbatim>\<open>int\<close> loop counter is an integer whose increment beyond
  \<open>INT_MAX\<close> is an error, as signed overflow is undefined.
\<close>

type_synonym u32 = "32 word"

text \<open>
  Every way the program stops without a result is a value:
  \<^item> \<open>AssertionFailure\<close>: an \<^verbatim>\<open>assert\<close> fails and the process aborts;
  \<^item> \<open>UnrecognizedAttribute t\<close>: \<^verbatim>\<open>setAttribute\<close> prints
    "COULD NOT SET ATTRIBUTE - t - IS NOT A RECOGNIZED USER ATTRIBUTE TYPE" on the error
    stream and calls \<^verbatim>\<open>exit(1)\<close>;
  \<^item> \<open>InvalidArgument\<close> and \<open>OutOfRange\<close>: the exceptions \<^verbatim>\<open>std::invalid_argument\<close> and
    \<^verbatim>\<open>std::out_of_range\<close>, thrown by \<^verbatim>\<open>std::stoi\<close> and \<^verbatim>\<open>vector::at\<close>; nothing catches
    them, so the run terminates;
  \<^item> \<open>UndefinedBehaviour\<close>: an unchecked \<^verbatim>\<open>operator[]\<close> outside its vector, or signed
    overflow: the language promises nothing, in particular no abort.
\<close>

datatype error =
    AssertionFailure
  | UnrecognizedAttribute string
  | InvalidArgument
  | OutOfRange
  | UndefinedBehaviour

record User =
  id_of :: u32
  name :: string
  location :: string
  pic_url :: string
  follows :: "u32 list"

record SocialNetwork =
  numUsers :: u32
  followerRelationShips :: "bool list list"
  users :: "User list"
  userNames :: "string list"

section \<open>Input streams\<close>

text \<open>
  A \<^verbatim>\<open>stringstream\<close> or \<^verbatim>\<open>ifstream\<close> used for reading is the text not yet read and
  whether the stream is still \<^verbatim>\<open>good()\<close>. Every reading operation first checks
  \<^verbatim>\<open>good()\<close> (its sentry) and does nothing on a stream that is not; reaching the end of
  the text clears \<^verbatim>\<open>good()\<close>. A character read is \<open>Some c\<close>, the end-of-file value is
  \<open>None\<close>. The program calls \<^verbatim>\<open>clear()\<close> only on streams it does not read again.
\<close>

record istream =
  buf :: string
  good :: bool

definition str :: "string \<Rightarrow> istream" where
  "str s = \<lparr>buf = s, good = True\<rparr>"

definition peek :: "istream \<Rightarrow> char option \<times> istream" where
  "peek s =
     (if \<not> good s then (None, s)
      else case buf s of
             [] \<Rightarrow> (None, s\<lparr>good := False\<rparr>)
           | c # _ \<Rightarrow> (Some c, s))"

definition get :: "istream \<Rightarrow> char option \<times> istream" where
  "get s =
     (if \<not> good s then (None, s)
      else case buf s of
             [] \<Rightarrow> (None, s\<lparr>good := False\<rparr>)
           | c # r \<Rightarrow> (Some c, s\<lparr>buf := r\<rparr>))"

text \<open>\<^verbatim>\<open>ignore()\<close>: drops one character.\<close>

definition ignore1 :: "istream \<Rightarrow> istream" where
  "ignore1 s =
     (if \<not> good s then s
      else case buf s of
             [] \<Rightarrow> s\<lparr>good := False\<rparr>
           | _ # r \<Rightarrow> s\<lparr>buf := r\<rparr>)"

text \<open>
  \<^verbatim>\<open>ignore(numeric_limits<streamsize>::max(), d)\<close>: drops everything up to and including
  the first \<open>d\<close>; without a \<open>d\<close> it drops the rest and meets the end of the text.
\<close>

definition ignore :: "istream \<Rightarrow> char \<Rightarrow> istream" where
  "ignore s d =
     (if \<not> good s then s
      else if d \<in> set (buf s) then s\<lparr>buf := tl (dropWhile (\<lambda>c. c \<noteq> d) (buf s))\<rparr>
      else s\<lparr>buf := [], good := False\<rparr>)"

text \<open>
  \<^verbatim>\<open>getline(s, t, d)\<close>: on a good stream the target string is emptied and receives the
  characters before the first \<open>d\<close>, which is read and dropped; without a \<open>d\<close> it
  receives the rest. On a stream that is not good the target keeps its old content \<open>t\<close>.
\<close>

definition getline :: "istream \<Rightarrow> string \<Rightarrow> char \<Rightarrow> istream \<times> string" where
  "getline s t d =
     (if \<not> good s then (s, t)
      else if d \<in> set (buf s)
        then (s\<lparr>buf := tl (dropWhile (\<lambda>c. c \<noteq> d) (buf s))\<rparr>, takeWhile (\<lambda>c. c \<noteq> d) (buf s))
      else (s\<lparr>buf := [], good := False\<rparr>, buf s))"

section \<open>\<^verbatim>\<open>std::stoi\<close>\<close>

text \<open>
  The library function \<^verbatim>\<open>std::stoi(str)\<close> in base 10, as \<^verbatim>\<open>strtol\<close> defines it: leading
  white space is skipped, one sign is accepted, then the longest run of decimal digits is
  converted and whatever follows is ignored. No digit at that place throws
  \<^verbatim>\<open>std::invalid_argument\<close>; a value that does not fit an \<^verbatim>\<open>int\<close> throws
  \<^verbatim>\<open>std::out_of_range\<close>.
\<close>

definition isspace :: "char \<Rightarrow> bool" where
  "isspace c \<longleftrightarrow> c \<in> set [CHR '' '', CHR 0x09, CHR 0x0A, CHR 0x0B, CHR 0x0C, CHR 0x0D]"

definition isdigit :: "char \<Rightarrow> bool" where
  "isdigit c \<longleftrightarrow> c \<in> set ''0123456789''"

definition digit_val :: "char \<Rightarrow> int" where
  "digit_val c = of_char c - 48"

definition digits_val :: "string \<Rightarrow> int" where
  "digits_val ds = foldl (\<lambda>a c. 10 * a + digit_val c) 0 ds"

text \<open>The text after the white space and the sign; its leading digits; the sign.\<close>

definition skip_sign :: "string \<Rightarrow> string" where
  "skip_sign s = (if s \<noteq> [] \<and> (hd s = CHR ''-'' \<or> hd s = CHR ''+'') then tl s else s)"

definition leading_digits :: "string \<Rightarrow> string" where
  "leading_digits s = takeWhile isdigit (skip_sign (dropWhile isspace s))"

definition negative :: "string \<Rightarrow> bool" where
  "negative s = (case dropWhile isspace s of [] \<Rightarrow> False | c # _ \<Rightarrow> c = CHR ''-'')"

definition stoi :: "string \<Rightarrow> error + int" where
  "stoi s =
     (let ds = leading_digits s
      in if ds = [] then Inl InvalidArgument
         else let v = (if negative s then - digits_val ds else digits_val ds)
              in if v < - 2147483648 \<or> 2147483647 < v then Inl OutOfRange else Inr v)"

section \<open>\<^verbatim>\<open>User\<close>\<close>

definition default_pic_url :: string where
  "default_pic_url = ''https://i.pinimg.com/236x/1c/8b/b2/1c8bb212c3fac9c3393b663c0ed9f6cb.jpg''"

definition setDefaultAttributesWhenEmpty :: "User \<Rightarrow> User" where
  "setDefaultAttributesWhenEmpty u =
     (if pic_url u = [] then u\<lparr>pic_url := default_pic_url\<rparr> else u)"

text \<open>\<^verbatim>\<open>User::User()\<close>: the follows vector is empty by its own constructor.\<close>

definition User_default :: User where
  "User_default = \<lparr>id_of = 0, name = [], location = [], pic_url = [], follows = []\<rparr>"

text \<open>\<^verbatim>\<open>User::User(id, name, location, pic_url, follows)\<close>\<close>

definition User_of :: "u32 \<Rightarrow> string \<Rightarrow> string \<Rightarrow> string \<Rightarrow> u32 list \<Rightarrow> User" where
  "User_of i n l p f =
     setDefaultAttributesWhenEmpty
       \<lparr>id_of = i, name = n, location = l, pic_url = p, follows = f\<rparr>"

definition isValid :: "User \<Rightarrow> bool" where
  "isValid u \<longleftrightarrow> 0 < id_of u \<and> name u \<noteq> []"

definition getId :: "User \<Rightarrow> error + u32" where
  "getId u = (if isValid u then Inr (id_of u) else Inl AssertionFailure)"

definition getName :: "User \<Rightarrow> error + string" where
  "getName u = (if isValid u then Inr (name u) else Inl AssertionFailure)"

definition getLocation :: "User \<Rightarrow> error + string" where
  "getLocation u = (if isValid u then Inr (location u) else Inl AssertionFailure)"

definition getPicUrl :: "User \<Rightarrow> error + string" where
  "getPicUrl u = (if isValid u then Inr (pic_url u) else Inl AssertionFailure)"

definition getFollows :: "User \<Rightarrow> error + u32 list" where
  "getFollows u = (if isValid u then Inr (follows u) else Inl AssertionFailure)"

text \<open>The size of the vector is narrowed to \<^verbatim>\<open>unsigned int\<close>.\<close>

definition getFollowsSize :: "User \<Rightarrow> error + u32" where
  "getFollowsSize u =
     (if isValid u then Inr (of_nat (length (follows u))) else Inl AssertionFailure)"

text \<open>
  \<^verbatim>\<open>follows.at(i)\<close> throws \<^verbatim>\<open>std::out_of_range\<close> outside the vector; a negative \<^verbatim>\<open>int\<close>
  becomes an index beyond every vector.
\<close>

definition getFollowsIdAt :: "User \<Rightarrow> int \<Rightarrow> error + u32" where
  "getFollowsIdAt u i =
     (if \<not> isValid u then Inl AssertionFailure
      else if 0 \<le> i \<and> i < int (length (follows u)) then Inr (follows u ! nat i)
      else Inl OutOfRange)"

text \<open>\<^verbatim>\<open>User::operator<\<close>\<close>

definition user_less :: "User \<Rightarrow> User \<Rightarrow> bool" where
  "user_less a b \<longleftrightarrow> id_of a < id_of b"

section \<open>Building a \<^verbatim>\<open>User\<close> from its attributes\<close>

text \<open>
  \<^verbatim>\<open>s.peek() == a || s.peek() == b\<close>: the second \<^verbatim>\<open>peek\<close> runs only when the first
  comparison fails.
\<close>

definition peek_either :: "istream \<Rightarrow> char \<Rightarrow> char \<Rightarrow> bool \<times> istream" where
  "peek_either s a b =
     (case peek s of (c1, s1) \<Rightarrow>
        if c1 = Some a then (True, s1)
        else (case peek s1 of (c2, s2) \<Rightarrow> (c2 = Some b, s2)))"

text \<open>
  \<^verbatim>\<open>User::stringArrayToUnsignedIntVector\<close>. One turn of its loop, entered when the next
  character is a comma or a double quote: skip to the opening quote, read up to the closing
  one, convert with \<^verbatim>\<open>stoi\<close>, and narrow the \<^verbatim>\<open>int\<close> to \<^verbatim>\<open>unsigned int\<close>.
\<close>

definition array_step ::
  "istream \<Rightarrow> string \<Rightarrow> u32 list \<Rightarrow> error + (istream \<times> string \<times> u32 list)" where
  \<open>array_step arraySS val_str arr =
     (case getline (ignore arraySS (CHR ''"'')) val_str (CHR ''"'') of (s', val_str') \<Rightarrow>
        (case stoi val_str' of
           Inl e \<Rightarrow> Inl e
         | Inr n \<Rightarrow> Inr (s', val_str', arr @ [word_of_int n])))\<close>

lemma length_buf_peek: "length (buf (snd (peek s))) = length (buf s)"
  by (simp add: peek_def split: list.split)

lemma length_buf_ignore1: "length (buf (ignore1 s)) \<le> length (buf s)"
  by (simp add: ignore1_def split: list.split)

lemma length_tl_dropWhile: "length (dropWhile P xs) - Suc 0 \<le> length xs"
  using length_dropWhile_le [of P xs] by arith

lemma length_tl_dropWhile_less: "xs \<noteq> [] \<Longrightarrow> length (dropWhile P xs) - Suc 0 < length xs"
  using length_dropWhile_le [of P xs] by (cases xs) auto

lemma length_buf_ignore: "length (buf (ignore s d)) \<le> length (buf s)"
  by (simp add: ignore_def length_tl_dropWhile)

lemma length_buf_ignore_less:
  "good s \<Longrightarrow> buf s \<noteq> [] \<Longrightarrow> length (buf (ignore s d)) < length (buf s)"
  by (simp add: ignore_def length_tl_dropWhile_less)

lemma length_buf_getline: "length (buf (fst (getline s t d))) \<le> length (buf s)"
  by (simp add: getline_def length_tl_dropWhile)

lemma peek_either_True:
  "peek_either s a b = (True, s') \<Longrightarrow> s' = s \<and> good s \<and> buf s \<noteq> []"
  by (auto simp: peek_either_def peek_def split: if_splits list.splits prod.splits)

lemma array_step_shorter:
  assumes "peek_either s a b = (True, s1)" and "array_step s1 v arr = Inr (s', v', arr')"
  shows "length (buf s') < length (buf s)"
proof -
  from assms(1) have s1: "s1 = s" "good s" "buf s \<noteq> []"
    using peek_either_True by blast+
  have "s' = fst (getline (ignore s (CHR 0x22)) v (CHR 0x22))"
    using assms(2) unfolding s1 array_step_def by (auto split: prod.splits sum.splits)
  then have "length (buf s') \<le> length (buf (ignore s (CHR 0x22)))"
    by (simp add: length_buf_getline)
  also have "\<dots> < length (buf s)"
    using s1 by (simp add: length_buf_ignore_less)
  finally show ?thesis .
qed

function array_loop :: "istream \<Rightarrow> string \<Rightarrow> u32 list \<Rightarrow> error + u32 list" where
  \<open>array_loop arraySS val_str arr =
     (case peek_either arraySS (CHR '','') (CHR ''"'') of
        (True, s1) \<Rightarrow>
          (case array_step s1 val_str arr of
             Inl e \<Rightarrow> Inl e
           | Inr (s', val_str', arr') \<Rightarrow> array_loop s' val_str' arr')
      | (False, _) \<Rightarrow> Inr arr)\<close>
  by pat_completeness auto
termination
  by (relation "measure (\<lambda>(s, v, arr). length (buf s))")
     (auto dest: array_step_shorter [OF sym])

declare array_loop.simps [simp del]

definition stringArrayToUnsignedIntVector :: "string \<Rightarrow> error + u32 list" where
  "stringArrayToUnsignedIntVector arrayString = array_loop (str arrayString) [] []"

text \<open>
  \<^verbatim>\<open>User::setAttribute\<close>. The title must not be empty; \<open>follows\<close> is handled before the
  data is required to be non-empty; \<open>id_str\<close> is converted by \<^verbatim>\<open>stoi\<close> and narrowed to
  \<^verbatim>\<open>unsigned int\<close>; any other title ends the process.
\<close>

definition setAttribute :: "User \<Rightarrow> string \<Rightarrow> string \<Rightarrow> error + User" where
  "setAttribute u title data =
     (if title = [] then Inl AssertionFailure
      else if title = ''follows'' then
        (case stringArrayToUnsignedIntVector data of
           Inl e \<Rightarrow> Inl e
         | Inr v \<Rightarrow> Inr (u\<lparr>follows := v\<rparr>))
      else if data = [] then Inl AssertionFailure
      else if title = ''id_str'' then
        (case stoi data of
           Inl e \<Rightarrow> Inl e
         | Inr n \<Rightarrow> Inr (u\<lparr>id_of := word_of_int n\<rparr>))
      else if title = ''name'' then Inr (u\<lparr>name := data\<rparr>)
      else if title = ''pic_url'' then Inr (u\<lparr>pic_url := data\<rparr>)
      else if title = ''location'' then Inr (u\<lparr>location := data\<rparr>)
      else Inl (UnrecognizedAttribute title))"

text \<open>\<^verbatim>\<open>User::getAttributeTitle\<close>: the text between the next two double quotes.\<close>

definition getAttributeTitle :: "istream \<Rightarrow> string \<times> istream" where
  \<open>getAttributeTitle inputLine =
     (case getline (ignore inputLine (CHR ''"'')) [] (CHR ''"'') of
        (s', title) \<Rightarrow> (title, s'))\<close>

text \<open>
  \<^verbatim>\<open>User::getAttributeData\<close>: after the colon and one more character the next character
  must be a double quote or an opening bracket; the data runs to the next double quote or
  closing bracket. The delimiter is \<^verbatim>\<open>static_cast<char>(inputLine.get())\<close>, the byte
  \<open>0xFF\<close> for the end-of-file value.
\<close>

definition getAttributeData :: "istream \<Rightarrow> error + (string \<times> istream)" where
  \<open>getAttributeData inputLine =
     (case peek_either (ignore1 (ignore inputLine (CHR '':''))) (CHR ''"'') (CHR ''['') of
        (False, _) \<Rightarrow> Inl AssertionFailure
      | (True, s1) \<Rightarrow>
          (case get s1 of (d, s2) \<Rightarrow>
             (let c = (case d of None \<Rightarrow> CHR 0xFF | Some c \<Rightarrow> c);
                  delimiter = (if c = CHR ''['' then CHR '']'' else c)
              in case getline s2 [] delimiter of (s', data) \<Rightarrow> Inr (data, s'))))\<close>

text \<open>One turn of the loop of \<^verbatim>\<open>User::User(stringstream&)\<close>.\<close>

definition attribute_step :: "istream \<Rightarrow> User \<Rightarrow> error + (istream \<times> User)" where
  "attribute_step ss u =
     (case getAttributeTitle ss of (title, s1) \<Rightarrow>
        (case getAttributeData s1 of
           Inl e \<Rightarrow> Inl e
         | Inr (data, s2) \<Rightarrow>
             (case setAttribute u title data of
                Inl e \<Rightarrow> Inl e
              | Inr u' \<Rightarrow> Inr (ignore1 s2, u'))))"

lemma length_buf_getAttributeTitle:
  "length (buf (snd (getAttributeTitle s))) \<le> length (buf s)"
proof -
  have "length (buf (fst (getline (ignore s (CHR 0x22)) [] (CHR 0x22))))
          \<le> length (buf (ignore s (CHR 0x22)))"
    by (rule length_buf_getline)
  also have "\<dots> \<le> length (buf s)"
    by (rule length_buf_ignore)
  finally show ?thesis
    by (simp add: getAttributeTitle_def case_prod_unfold)
qed

lemma length_buf_get:
  "good s \<Longrightarrow> buf s \<noteq> [] \<Longrightarrow> length (buf (snd (get s))) < length (buf s)"
  by (simp add: get_def split: list.split)

lemma length_buf_getAttributeData:
  assumes "getAttributeData s = Inr (data, s')"
  shows "length (buf s') < length (buf s)"
proof -
  let ?s0 = "ignore1 (ignore s (CHR 0x3A))"
  obtain s1 where pe: "peek_either ?s0 (CHR 0x22) (CHR 0x5B) = (True, s1)"
    using assms unfolding getAttributeData_def
    by (cases "peek_either ?s0 (CHR 0x22) (CHR 0x5B)") (auto split: bool.splits)
  then have s1: "s1 = ?s0" "good ?s0" "buf ?s0 \<noteq> []"
    using peek_either_True by blast+
  have "\<exists>dl. s' = fst (getline (snd (get ?s0)) [] dl)"
    using assms pe unfolding getAttributeData_def s1(1)
    by (auto simp: Let_def case_prod_unfold)
  then have "length (buf s') \<le> length (buf (snd (get ?s0)))"
    by (auto simp: length_buf_getline)
  also have "\<dots> < length (buf ?s0)"
    using s1 by (simp add: length_buf_get)
  also have "\<dots> \<le> length (buf (ignore s (CHR 0x3A)))"
    by (rule length_buf_ignore1)
  also have "\<dots> \<le> length (buf s)"
    by (rule length_buf_ignore)
  finally show ?thesis .
qed

lemma attribute_step_shorter:
  assumes "attribute_step s u = Inr (s', u')"
  shows "length (buf s') < length (buf s)"
proof -
  obtain data s2 where d: "getAttributeData (snd (getAttributeTitle s)) = Inr (data, s2)"
    and s': "s' = ignore1 s2"
    using assms unfolding attribute_step_def
    by (auto split: prod.splits sum.splits)
  have "length (buf s') \<le> length (buf s2)"
    unfolding s' by (rule length_buf_ignore1)
  also have "\<dots> < length (buf (snd (getAttributeTitle s)))"
    using d by (rule length_buf_getAttributeData)
  also have "\<dots> \<le> length (buf s)"
    by (rule length_buf_getAttributeTitle)
  finally show ?thesis .
qed

text \<open>
  The loop of \<^verbatim>\<open>User::User(stringstream&)\<close>:
  \<^verbatim>\<open>while (ss.good() && ss.peek() != '\t') { ... }\<close>.
\<close>

function attribute_loop :: "istream \<Rightarrow> User \<Rightarrow> error + User" where
  "attribute_loop ss u =
     (if good ss \<and> fst (peek ss) \<noteq> Some (CHR 0x09) then
        (case attribute_step (snd (peek ss)) u of
           Inl e \<Rightarrow> Inl e
         | Inr (ss', u') \<Rightarrow> attribute_loop ss' u')
      else Inr u)"
  by pat_completeness auto
termination
proof (relation "measure (\<lambda>(s, u). length (buf s))")
  show "wf (measure (\<lambda>(s, u). length (buf s)))"
    by simp
next
  fix ss :: istream and u :: User and x2 :: "istream \<times> User" and ss' u'
  assume "attribute_step (snd (peek ss)) u = Inr x2" and "(ss', u') = x2"
  then have "length (buf ss') < length (buf (snd (peek ss)))"
    using attribute_step_shorter by metis
  then show "((ss', u'), ss, u) \<in> measure (\<lambda>(s, u). length (buf s))"
    by (simp add: length_buf_peek)
qed

declare attribute_loop.simps [simp del]

text \<open>
  \<^verbatim>\<open>User::User(stringstream&)\<close>. The constructor initialises no member: the strings and
  the vector start empty by their own constructors, and \<open>id\<close> starts with the
  indeterminate value \<open>uninit\<close>, whatever the memory holds.
\<close>

definition User_from_stream :: "u32 \<Rightarrow> istream \<Rightarrow> error + User" where
  "User_from_stream uninit ss =
     (case attribute_loop ss
             \<lparr>id_of = uninit, name = [], location = [], pic_url = [], follows = []\<rparr> of
        Inl e \<Rightarrow> Inl e
      | Inr u \<Rightarrow> Inr (setDefaultAttributesWhenEmpty u))"

section \<open>\<^verbatim>\<open>SocialNetwork\<close>: reading the users\<close>

text \<open>
  The object under construction and the local variables of
  \<^verbatim>\<open>SocialNetwork::SocialNetwork(const string&)\<close> while it reads the file.
\<close>

record ingestion =
  inFS :: istream
  userData :: string
  userSortingNeeded :: bool
  nextExpectedID :: u32
  net :: SocialNetwork

text \<open>
  One turn of the reading loop: skip to the opening brace, read up to the closing one
  (a failed \<^verbatim>\<open>getline\<close> leaves the previous record's text in \<open>userData\<close>), build the
  user, require it valid, append it, compare its id with the expected one, count it.
  \<open>uninit k\<close> is the indeterminate value the id of the \<open>k\<close>-th user starts with.
\<close>

definition ingest_step :: "(nat \<Rightarrow> u32) \<Rightarrow> ingestion \<Rightarrow> error + ingestion" where
  "ingest_step uninit st =
     (case getline (ignore (inFS st) (CHR ''{'')) (userData st) (CHR ''}'') of
        (s1, userData') \<Rightarrow>
          (case User_from_stream (uninit (length (users (net st)))) (str userData') of
             Inl e \<Rightarrow> Inl e
           | Inr newUser \<Rightarrow>
               if \<not> isValid newUser then Inl AssertionFailure
               else (case getId newUser of
                       Inl e \<Rightarrow> Inl e
                     | Inr i \<Rightarrow>
                         Inr \<lparr>inFS = ignore1 s1,
                              userData = userData',
                              userSortingNeeded = (userSortingNeeded st \<or> i \<noteq> nextExpectedID st),
                              nextExpectedID = nextExpectedID st + 1,
                              net = (net st)\<lparr>users := users (net st) @ [newUser],
                                             numUsers := numUsers (net st) + 1\<rparr>\<rparr>)))"

text \<open>
  \<^verbatim>\<open>while (inFS.peek() != ']') { ... }\<close>. At the end of a file without a closing bracket
  \<^verbatim>\<open>peek\<close> keeps returning the end-of-file value and the loop never ends: the loop takes
  fuel, and \<open>None\<close> says that the fuel did not suffice.
\<close>

fun ingest_loop :: "(nat \<Rightarrow> u32) \<Rightarrow> nat \<Rightarrow> ingestion \<Rightarrow> (error + ingestion) option" where
  "ingest_loop uninit 0 st = None"
| "ingest_loop uninit (Suc fuel) st =
     (case peek (inFS st) of (c, s1) \<Rightarrow>
        if c \<noteq> Some (CHR '']'') then
          (case ingest_step uninit (st\<lparr>inFS := s1\<rparr>) of
             Inl e \<Rightarrow> Some (Inl e)
           | Inr st' \<Rightarrow> ingest_loop uninit fuel st')
        else Some (Inr (st\<lparr>inFS := s1\<rparr>)))"

text \<open>
  The constructor up to the end of the reading loop. The file is \<open>None\<close> when it cannot
  be opened, else its text.
\<close>

definition ingest :: "(nat \<Rightarrow> u32) \<Rightarrow> nat \<Rightarrow> string option \<Rightarrow> (error + ingestion) option" where
  "ingest uninit fuel file =
     (case file of
        None \<Rightarrow> Some (Inl AssertionFailure)
      | Some text \<Rightarrow>
          ingest_loop uninit fuel
            \<lparr>inFS = ignore (str text) (CHR ''[''),
             userData = [],
             userSortingNeeded = False,
             nextExpectedID = 1,
             net = \<lparr>numUsers = 0, followerRelationShips = [], users = [], userNames = []\<rparr>\<rparr>)"

section \<open>\<^verbatim>\<open>SocialNetwork\<close>: the relationship matrix\<close>

text \<open>
  The inner loop \<^verbatim>\<open>for (int j = 0; j < curUser->getFollowsSize(); j++)\<close>: the cell
  \<open>follows[j] - 1\<close> of the row becomes true, through the unchecked \<^verbatim>\<open>operator[]\<close>.
  The comparison converts \<open>j\<close> to \<^verbatim>\<open>unsigned int\<close>; \<open>j++\<close> at \<open>INT_MAX\<close> overflows.
\<close>

function row_loop :: "User \<Rightarrow> bool list \<Rightarrow> int \<Rightarrow> error + bool list" where
  "row_loop curUser row j =
     (case getFollowsSize curUser of
        Inl e \<Rightarrow> Inl e
      | Inr n \<Rightarrow>
          if word_of_int j < n then
            (case getFollowsIdAt curUser j of
               Inl e \<Rightarrow> Inl e
             | Inr f \<Rightarrow>
                 (let followerIndex = f - 1 in
                  if unat followerIndex < length row then
                    (if 2147483647 \<le> j then Inl UndefinedBehaviour
                     else row_loop curUser (row[unat followerIndex := True]) (j + 1))
                  else Inl UndefinedBehaviour))
          else Inr row)"
  by pat_completeness auto
termination
  by (relation "measure (\<lambda>(u, row, j). nat (2147483647 - j))") auto

declare row_loop.simps [simp del]

text \<open>
  The outer loop \<^verbatim>\<open>for (int i = 0; i < numUsers; i++)\<close>: one row of \<open>numUsers\<close> cells
  and one name for each user; \<^verbatim>\<open>users[i]\<close> is unchecked.
\<close>

function matrix_loop :: "SocialNetwork \<Rightarrow> int \<Rightarrow> error + SocialNetwork" where
  "matrix_loop sn i =
     (if word_of_int i < numUsers sn then
        (if 0 \<le> i \<and> i < int (length (users sn)) then
           (let curUser = users sn ! nat i in
            case row_loop curUser (replicate (unat (numUsers sn)) False) 0 of
              Inl e \<Rightarrow> Inl e
            | Inr row \<Rightarrow>
                (case getName curUser of
                   Inl e \<Rightarrow> Inl e
                 | Inr nm \<Rightarrow>
                     if 2147483647 \<le> i then Inl UndefinedBehaviour
                     else matrix_loop
                            (sn\<lparr>followerRelationShips := followerRelationShips sn @ [row],
                                userNames := userNames sn @ [nm]\<rparr>)
                            (i + 1)))
         else Inl UndefinedBehaviour)
      else Inr sn)"
  by pat_completeness auto
termination
  by (relation "measure (\<lambda>(sn, i). nat (2147483647 - i))") auto

declare matrix_loop.simps [simp del]

text \<open>
  The rest of the constructor: sort the users when the reading loop asked for it, then
  build the matrix. \<^verbatim>\<open>std::sort\<close> is the parameter \<open>std_sort\<close>: the library promises a
  permutation in ascending order of \<^verbatim>\<open>operator<\<close>, and no order among equal elements.
\<close>

definition std_sort_contract :: "(User list \<Rightarrow> User list) \<Rightarrow> bool" where
  "std_sort_contract std_sort \<longleftrightarrow>
     (\<forall>us. mset (std_sort us) = mset us \<and> sorted_wrt (\<lambda>a b. \<not> user_less b a) (std_sort us))"

definition sort_users :: "(User list \<Rightarrow> User list) \<Rightarrow> ingestion \<Rightarrow> SocialNetwork" where
  "sort_users std_sort st =
     (net st)\<lparr>users := (if userSortingNeeded st then std_sort (users (net st))
                         else users (net st))\<rparr>"

definition assemble :: "(User list \<Rightarrow> User list) \<Rightarrow> ingestion \<Rightarrow> error + SocialNetwork" where
  "assemble std_sort st = matrix_loop (sort_users std_sort st) 0"

definition SocialNetwork_of ::
  "(User list \<Rightarrow> User list) \<Rightarrow> (nat \<Rightarrow> u32) \<Rightarrow> nat \<Rightarrow> string option
     \<Rightarrow> (error + SocialNetwork) option" where
  "SocialNetwork_of std_sort uninit fuel file =
     (case ingest uninit fuel file of
        None \<Rightarrow> None
      | Some (Inl e) \<Rightarrow> Some (Inl e)
      | Some (Inr st) \<Rightarrow> Some (assemble std_sort st))"

section \<open>\<^verbatim>\<open>SocialNetwork\<close>: the queries\<close>

text \<open>
  \<^verbatim>\<open>SocialNetwork::isFollowing\<close>: both ids are asserted positive; the matrix is then read
  through the unchecked \<^verbatim>\<open>operator[]\<close>.
\<close>

definition isFollowing :: "SocialNetwork \<Rightarrow> u32 \<Rightarrow> u32 \<Rightarrow> error + bool" where
  "isFollowing sn followerID followedID =
     (if \<not> (0 < followerID \<and> 0 < followedID) then Inl AssertionFailure
      else if unat (followerID - 1) < length (followerRelationShips sn) then
        (let row = followerRelationShips sn ! unat (followerID - 1) in
         if unat (followedID - 1) < length row then Inr (row ! unat (followedID - 1))
         else Inl UndefinedBehaviour)
      else Inl UndefinedBehaviour)"

text \<open>The body of the loop of \<^verbatim>\<open>SocialNetwork::getFollowerAndMutualsFromId\<close>.\<close>

definition follower_step ::
  "SocialNetwork \<Rightarrow> u32 \<Rightarrow> u32 \<Rightarrow> u32 list \<times> u32 list \<Rightarrow> error + (u32 list \<times> u32 list)" where
  "follower_step sn currID otherID acc =
     (case acc of (followers, mutuals) \<Rightarrow>
        if currID \<noteq> otherID then
          (case isFollowing sn otherID currID of
             Inl e \<Rightarrow> Inl e
           | Inr True \<Rightarrow>
               (case isFollowing sn currID otherID of
                  Inl e \<Rightarrow> Inl e
                | Inr True \<Rightarrow> Inr (followers @ [otherID], mutuals @ [otherID])
                | Inr False \<Rightarrow> Inr (followers @ [otherID], mutuals))
           | Inr False \<Rightarrow> Inr (followers, mutuals))
        else Inr (followers, mutuals))"

lemma follower_step_Inr:
  assumes "follower_step sn currID otherID acc = Inr acc'"
  shows "currID = otherID \<or> (currID \<noteq> 0 \<and> otherID \<noteq> 0)"
proof (rule ccontr)
  assume "\<not> ?thesis"
  then have ne: "currID \<noteq> otherID" and z: "currID = 0 \<or> otherID = 0"
    by auto
  from z have "isFollowing sn otherID currID = Inl AssertionFailure"
    by (auto simp: isFollowing_def)
  with ne assms show False
    by (simp add: follower_step_def split: prod.splits)
qed

text \<open>
  \<^verbatim>\<open>for (unsigned int otherID = 1; otherID <= numUsers; otherID++)\<close>. The counter wraps
  from \<open>2^32 - 1\<close> to 0, where the assertion of \<^verbatim>\<open>isFollowing\<close> stops the loop.
\<close>

function follower_loop ::
  "SocialNetwork \<Rightarrow> u32 \<Rightarrow> u32 \<Rightarrow> u32 list \<times> u32 list \<Rightarrow> error + (u32 list \<times> u32 list)" where
  "follower_loop sn currID otherID acc =
     (if otherID \<le> numUsers sn then
        (case follower_step sn currID otherID acc of
           Inl e \<Rightarrow> Inl e
         | Inr acc' \<Rightarrow> follower_loop sn currID (otherID + 1) acc')
      else Inr acc)"
  by pat_completeness auto
termination
proof (relation "measure (\<lambda>(sn, currID, otherID, acc).
          if currID = 0 then (if otherID = 0 then 1 else 0)
          else if otherID = 0 then 0 else 2 ^ 32 - unat otherID)")
  show "wf (measure (\<lambda>(sn :: SocialNetwork, currID :: u32, otherID :: u32,
                        acc :: u32 list \<times> u32 list).
          if currID = 0 then (if otherID = 0 then 1 else 0)
          else if otherID = 0 then 0 else 2 ^ 32 - unat otherID))"
    by simp
next
  fix sn :: SocialNetwork and currID otherID :: u32 and acc acc' :: "u32 list \<times> u32 list"
  assume "follower_step sn currID otherID acc = Inr acc'"
  then have c: "currID = otherID \<or> (currID \<noteq> 0 \<and> otherID \<noteq> 0)"
    by (rule follower_step_Inr)
  have lt: "unat otherID < 2 ^ 32"
    using unsigned_less [of otherID] by simp
  have suc: "otherID + 1 \<noteq> 0 \<Longrightarrow> unat (otherID + 1) = Suc (unat otherID)"
    using unatSuc [of otherID] by (simp add: add.commute)
  show "((sn, currID, otherID + 1, acc'), sn, currID, otherID, acc)
          \<in> measure (\<lambda>(sn, currID, otherID, acc).
               if currID = 0 then (if otherID = 0 then 1 else 0)
               else if otherID = 0 then 0 else 2 ^ 32 - unat otherID)"
    using c lt suc by auto
qed

declare follower_loop.simps [simp del]

definition getFollowerAndMutualsFromId ::
  "SocialNetwork \<Rightarrow> u32 list \<Rightarrow> u32 list \<Rightarrow> u32 \<Rightarrow> error + (u32 list \<times> u32 list)" where
  "getFollowerAndMutualsFromId sn followers mutuals currID =
     follower_loop sn currID 1 (followers, mutuals)"

section \<open>Example inputs\<close>

text \<open>
  The text of one record between its braces ends with one more character and a tab, as
  the loop of \<^verbatim>\<open>User::User(stringstream&)\<close> expects.
\<close>

definition record_text :: "string \<Rightarrow> string" where
  "record_text attributes = ''{'' @ attributes @ [CHR 0x0A, CHR 0x09] @ ''}''"

text \<open>Three users; the second one claims to follow itself.\<close>

definition attributes_A :: string where
  \<open>attributes_A = ''"id_str": "1","name": "A","follows": ["2","3"]''\<close>

definition attributes_B :: string where
  \<open>attributes_B = ''"id_str": "2","name": "B","follows": ["1","2"]''\<close>

definition attributes_C :: string where
  \<open>attributes_C = ''"id_str": "3","name": "C","follows": []''\<close>

text \<open>The three users in the order of their ids, and with the second one first.\<close>

definition network_text :: string where
  "network_text =
     ''['' @ record_text attributes_A @ '','' @ record_text attributes_B @ '','' @
     record_text attributes_C @ [CHR 0x0A] @ '']''"

definition shuffled_text :: string where
  "shuffled_text =
     ''['' @ record_text attributes_B @ '','' @ record_text attributes_A @ '','' @
     record_text attributes_C @ [CHR 0x0A] @ '']''"

definition user_A :: User where
  "user_A = \<lparr>id_of = 1, name = ''A'', location = [], pic_url = default_pic_url,
              follows = [2, 3]\<rparr>"

definition user_B :: User where
  "user_B = \<lparr>id_of = 2, name = ''B'', location = [], pic_url = default_pic_url,
              follows = [1, 2]\<rparr>"

definition user_C :: User where
  "user_C = \<lparr>id_of = 3, name = ''C'', location = [], pic_url = default_pic_url,
              follows = []\<rparr>"

definition network3 :: SocialNetwork where
  "network3 =
     \<lparr>numUsers = 3,
      followerRelationShips =
        [[False, True, True], [True, True, False], [False, False, False]],
      users = [user_A, user_B, user_C],
      userNames = [''A'', ''B'', ''C'']\<rparr>"

text \<open>A record whose first attribute has the title \<open>email\<close>, with and without data.\<close>

definition email_record :: string where
  \<open>email_record = ''"email": "a@b","id_str": "1","name": "A"'' @ [CHR 0x0A, CHR 0x09]\<close>

definition email_text :: string where
  \<open>email_text =
     ''['' @ record_text ''"email": "a@b","id_str": "1","name": "A"'' @ [CHR 0x0A] @ '']''\<close>

definition empty_email_text :: string where
  \<open>empty_email_text =
     ''['' @ record_text ''"email": "","id_str": "1","name": "A"'' @ [CHR 0x0A] @ '']''\<close>

text \<open>
  A record without a picture, one with a location and no picture, and one with a picture.
\<close>

definition plain_record :: string where
  \<open>plain_record = ''"id_str": "1","name": "A"'' @ [CHR 0x0A, CHR 0x09]\<close>

definition located_record :: string where
  \<open>located_record = ''"id_str": "1","location": "Paris","name": "A"'' @ [CHR 0x0A, CHR 0x09]\<close>

definition picture_record :: string where
  \<open>picture_record = ''"id_str": "1","pic_url": "p.jpg","name": "A"'' @ [CHR 0x0A, CHR 0x09]\<close>

text \<open>
  A record whose \<open>follows\<close> array holds a letter, a file whose second record is that
  one, and a file whose record follows a number beyond \<open>INT_MAX\<close>.
\<close>

definition letter_follows_record :: string where
  \<open>letter_follows_record =
     ''"id_str": "2","name": "B","follows": ["1","x"]'' @ [CHR 0x0A, CHR 0x09]\<close>

definition letter_follows_text :: string where
  \<open>letter_follows_text =
     ''['' @ record_text attributes_A @ '','' @
     record_text ''"id_str": "2","name": "B","follows": ["1","x"]'' @ [CHR 0x0A] @ '']''\<close>

definition huge_follows_text :: string where
  \<open>huge_follows_text =
     ''['' @ record_text ''"id_str": "1","name": "A","follows": ["99999999999"]'' @ [CHR 0x0A]
     @ '']''\<close>

text \<open>The constructor's variables when it has read the two texts.\<close>

definition network_read :: ingestion where
  "network_read =
     \<lparr>inFS = \<lparr>buf = '']'', good = True\<rparr>,
      userData = attributes_C @ [CHR 0x0A, CHR 0x09],
      userSortingNeeded = False,
      nextExpectedID = 4,
      net = \<lparr>numUsers = 3, followerRelationShips = [], users = [user_A, user_B, user_C],
             userNames = []\<rparr>\<rparr>"

definition shuffled_read :: ingestion where
  "shuffled_read =
     \<lparr>inFS = \<lparr>buf = '']'', good = True\<rparr>,
      userData = attributes_C @ [CHR 0x0A, CHR 0x09],
      userSortingNeeded = True,
      nextExpectedID = 4,
      net = \<lparr>numUsers = 3, followerRelationShips = [], users = [user_B, user_A, user_C],
             userNames = []\<rparr>\<rparr>"

section \<open>Notions used in the statements\<close>

text \<open>
  The raw value of a \<open>follows\<close> attribute in the expected form: the substrings, each
  between double quotes, separated by single commas.
\<close>

fun quoted_list :: "string list \<Rightarrow> string" where
  \<open>quoted_list [] = []\<close>
| \<open>quoted_list [t] = CHR ''"'' # t @ [CHR ''"'']\<close>
| \<open>quoted_list (t # ts) = CHR ''"'' # t @ CHR ''"'' # CHR '','' # quoted_list ts\<close>

text \<open>\<^verbatim>\<open>stoi\<close> on every substring in turn, stopping at the first one that throws.\<close>

fun convert_all :: "string list \<Rightarrow> error + u32 list" where
  "convert_all [] = Inr []"
| "convert_all (t # ts) =
     (case stoi t of
        Inl e \<Rightarrow> Inl e
      | Inr n \<Rightarrow> (case convert_all ts of Inl e \<Rightarrow> Inl e | Inr v \<Rightarrow> Inr (word_of_int n # v)))"

text \<open>
  What one turn of the loop of \<^verbatim>\<open>User::User(stringstream&)\<close> reads before it calls
  \<^verbatim>\<open>setAttribute\<close>: the title and the data, with the constructor's own
  \<^verbatim>\<open>getAttributeTitle\<close> and \<^verbatim>\<open>getAttributeData\<close>.
\<close>

definition read_attribute :: "istream \<Rightarrow> error + (string \<times> string \<times> istream)" where
  "read_attribute ss =
     (case getAttributeTitle ss of (title, s1) \<Rightarrow>
        (case getAttributeData s1 of
           Inl e \<Rightarrow> Inl e
         | Inr (data, s2) \<Rightarrow> Inr (title, data, s2)))"

lemma attribute_step_read:
  "attribute_step ss u =
     (case read_attribute ss of
        Inl e \<Rightarrow> Inl e
      | Inr (title, data, s2) \<Rightarrow>
          (case setAttribute u title data of
             Inl e \<Rightarrow> Inl e
           | Inr u' \<Rightarrow> Inr (ignore1 s2, u')))"
  by (simp add: attribute_step_def read_attribute_def split: prod.splits sum.splits)

lemma read_attribute_shorter:
  assumes "read_attribute s = Inr (title, data, s2)"
  shows "length (buf (ignore1 s2)) < length (buf s)"
proof -
  have d: "getAttributeData (snd (getAttributeTitle s)) = Inr (data, s2)"
    using assms unfolding read_attribute_def by (auto split: prod.splits sum.splits)
  have "length (buf (ignore1 s2)) \<le> length (buf s2)"
    by (rule length_buf_ignore1)
  also have "\<dots> < length (buf (snd (getAttributeTitle s)))"
    using d by (rule length_buf_getAttributeData)
  also have "\<dots> \<le> length (buf s)"
    by (rule length_buf_getAttributeTitle)
  finally show ?thesis .
qed

text \<open>
  The attributes a record holds, as the loop meets them: the titles and data read turn
  by turn, each turn starting one character after the data of the previous one, for as
  long as the condition of the loop holds.
\<close>

function attributes_read :: "istream \<Rightarrow> (string \<times> string) list" where
  "attributes_read ss =
     (if good ss \<and> fst (peek ss) \<noteq> Some (CHR 0x09) then
        (case read_attribute (snd (peek ss)) of
           Inl e \<Rightarrow> []
         | Inr (title, data, s2) \<Rightarrow> (title, data) # attributes_read (ignore1 s2))
      else [])"
  by pat_completeness auto
termination
proof (relation "measure (\<lambda>s. length (buf s))")
  show "wf (measure (\<lambda>s. length (buf s)))"
    by simp
next
  fix ss :: istream and x2 :: "string \<times> string \<times> istream" and title y data s2
  assume "read_attribute (snd (peek ss)) = Inr x2" and "(title, y) = x2" and "(data, s2) = y"
  then have "read_attribute (snd (peek ss)) = Inr (title, data, s2)"
    by simp
  then have "length (buf (ignore1 s2)) < length (buf (snd (peek ss)))"
    by (rule read_attribute_shorter)
  then show "(ignore1 s2, ss) \<in> measure (\<lambda>s. length (buf s))"
    by (simp add: length_buf_peek)
qed

declare attributes_read.simps [simp del]

text \<open>The data of the attributes with the title \<open>pic_url\<close>, in the order of the record.\<close>

definition pic_urls_read :: "istream \<Rightarrow> string list" where
  "pic_urls_read ss = map snd (filter (\<lambda>(title, data). title = ''pic_url'') (attributes_read ss))"

text \<open>
  What holds of the constructor's variables after every record: the matrix and the names
  are still empty, the two counters count the users read, the flag says whether some
  user's id differed from the counter at its turn, and every user is valid.
\<close>

definition ingest_inv :: "ingestion \<Rightarrow> bool" where
  "ingest_inv st \<longleftrightarrow>
     followerRelationShips (net st) = [] \<and> userNames (net st) = []
     \<and> numUsers (net st) = of_nat (length (users (net st)))
     \<and> nextExpectedID st = of_nat (length (users (net st))) + 1
     \<and> userSortingNeeded st
         = (\<exists>k<length (users (net st)). id_of (users (net st) ! k) \<noteq> of_nat k + 1)
     \<and> (\<forall>u\<in>set (users (net st)). isValid u)"

section \<open>The examples, evaluated\<close>

text \<open>The library's insertion sort by id stands for \<^verbatim>\<open>std::sort\<close> in the examples.\<close>

lemma sorted_wrt_user_less: "sorted_wrt (\<lambda>a b. \<not> user_less b a) us = sorted (map id_of us)"
  by (simp add: sorted_wrt_map user_less_def not_less)

lemma std_sort_contract_sort_key: "std_sort_contract (sort_key id_of)"
  by (simp add: std_sort_contract_def sorted_wrt_user_less)

lemma network3_built:
  "SocialNetwork_of (sort_key id_of) (\<lambda>k. 0) 4 (Some network_text) = Some (Inr network3)"
  by code_simp

lemma network_text_read: "ingest (\<lambda>k. 0) 4 (Some network_text) = Some (Inr network_read)"
  by code_simp

lemma shuffled_text_read: "ingest (\<lambda>k. 0) 4 (Some shuffled_text) = Some (Inr shuffled_read)"
  by code_simp

section \<open>The default user\<close>

text \<open>
  C10. A default-constructed user has id 0 and empty name, location and picture URL.
  It is not valid, the validity assertion of every accessor fails on it, and its picture
  URL stays empty: the default constructor does not fill in the default picture.
\<close>

theorem default_user_invalid:
  "id_of User_default = 0 \<and> name User_default = [] \<and> location User_default = []
   \<and> pic_url User_default = [] \<and> pic_url User_default \<noteq> default_pic_url
   \<and> \<not> isValid User_default
   \<and> getId User_default = Inl AssertionFailure
   \<and> getName User_default = Inl AssertionFailure
   \<and> getLocation User_default = Inl AssertionFailure
   \<and> getPicUrl User_default = Inl AssertionFailure
   \<and> getFollows User_default = Inl AssertionFailure
   \<and> getFollowsSize User_default = Inl AssertionFailure
   \<and> getFollowsIdAt User_default i = Inl AssertionFailure"
proof -
  have invalid: "\<not> isValid User_default"
    by (simp add: isValid_def User_default_def)
  have fields: "id_of User_default = 0" "name User_default = []"
    "location User_default = []" "pic_url User_default = []"
    by (simp_all add: User_default_def)
  have "default_pic_url \<noteq> []"
    by (simp add: default_pic_url_def)
  with fields invalid show ?thesis
    by (simp add: getId_def getName_def getLocation_def getPicUrl_def getFollows_def
        getFollowsSize_def getFollowsIdAt_def)
qed

section \<open>The contract of \<^verbatim>\<open>isFollowing\<close>\<close>

text \<open>
  C6, as the claim states it, fails: with three users, \<open>isFollowing(4, 1)\<close> passes the
  assertion (both ids are positive) and reads row 3 of a matrix of three rows through
  the unchecked \<^verbatim>\<open>operator[]\<close>. No check aborts the call.
\<close>

theorem isFollowing_beyond_matrix_unchecked:
  "SocialNetwork_of (sort_key id_of) (\<lambda>k. 0) 4 (Some network_text) = Some (Inr network3)
   \<and> unat (numUsers network3) < unat (4 :: u32)
   \<and> isFollowing network3 4 1 = Inl UndefinedBehaviour
   \<and> isFollowing network3 4 1 \<noteq> Inl AssertionFailure"
proof -
  have "isFollowing network3 4 1 = Inl UndefinedBehaviour"
    by (simp add: isFollowing_def network3_def)
  moreover have "unat (numUsers network3) < unat (4 :: u32)"
    by (simp add: network3_def)
  ultimately show ?thesis
    using network3_built by simp
qed

text \<open>
  C6, amended. \<^verbatim>\<open>isFollowing(followerID, followedID)\<close> aborts on its assertion when one
  of the ids is 0. When both ids are at least 1 and lie within the matrix, it returns the
  cell \<open>(followerID - 1, followedID - 1)\<close>. When both are at least 1 and one of them
  lies beyond the matrix, nothing is checked: the read is outside the vector, which is
  undefined behaviour and not an abort.
\<close>

theorem isFollowing_contract:
  "(followerID = 0 \<or> followedID = 0 \<longrightarrow>
      isFollowing sn followerID followedID = Inl AssertionFailure)
   \<and> (0 < followerID \<and> 0 < followedID
        \<and> unat followerID \<le> length (followerRelationShips sn)
        \<and> unat followedID \<le> length (followerRelationShips sn ! (unat followerID - 1)) \<longrightarrow>
      isFollowing sn followerID followedID
        = Inr (followerRelationShips sn ! (unat followerID - 1) ! (unat followedID - 1)))
   \<and> (0 < followerID \<and> 0 < followedID
        \<and> (length (followerRelationShips sn) < unat followerID
            \<or> length (followerRelationShips sn ! (unat followerID - 1)) < unat followedID) \<longrightarrow>
      isFollowing sn followerID followedID = Inl UndefinedBehaviour)"
proof -
  have pred: "unat (w - 1) = unat w - 1" if "0 < w" for w :: u32
    using that by (simp add: unat_minus_one word_neq_0_conv)
  have pos: "0 < unat w" if "0 < w" for w :: u32
    using that by (simp add: word_less_nat_alt)
  have zero: "followerID = 0 \<or> followedID = 0 \<longrightarrow>
      isFollowing sn followerID followedID = Inl AssertionFailure"
    by (auto simp: isFollowing_def)
  have inside: "isFollowing sn followerID followedID
        = Inr (followerRelationShips sn ! (unat followerID - 1) ! (unat followedID - 1))"
    if "0 < followerID" "0 < followedID"
      "unat followerID \<le> length (followerRelationShips sn)"
      "unat followedID \<le> length (followerRelationShips sn ! (unat followerID - 1))"
    using that pos [of followerID] pos [of followedID]
    by (auto simp: isFollowing_def pred Let_def)
  have outside: "isFollowing sn followerID followedID = Inl UndefinedBehaviour"
    if "0 < followerID" "0 < followedID"
      "length (followerRelationShips sn) < unat followerID
       \<or> length (followerRelationShips sn ! (unat followerID - 1)) < unat followedID"
    using that pos [of followerID] pos [of followedID]
    by (auto simp: isFollowing_def pred Let_def)
  from zero inside outside show ?thesis
    by blast
qed

theorem isFollowing_contract_witness:
  "isFollowing network3 0 1 = Inl AssertionFailure
   \<and> isFollowing network3 1 0 = Inl AssertionFailure
   \<and> isFollowing network3 1 2 = Inr True
   \<and> isFollowing network3 3 1 = Inr False
   \<and> isFollowing network3 1 4 = Inl UndefinedBehaviour"
proof -
  have rows: "followerRelationShips network3
      = [[False, True, True], [True, True, False], [False, False, False]]"
    by (simp add: network3_def)
  show ?thesis
    using isFollowing_contract [of 0 1 network3] isFollowing_contract [of 1 0 network3]
      isFollowing_contract [of 1 2 network3] isFollowing_contract [of 3 1 network3]
      isFollowing_contract [of 1 4 network3]
    by (simp add: rows)
qed

section \<open>Attributes outside the vocabulary\<close>

text \<open>
  C7, as the claim states it, fails: the title \<open>email\<close> with empty data stops at the
  assertion that the data is not empty, before the title is looked at. The run ends, but
  not with the unrecognized-attribute report.
\<close>

theorem unknown_title_empty_data_asserts:
  "''email'' \<notin> set [''id_str'', ''name'', ''location'', ''pic_url'', ''follows'']
   \<and> setAttribute User_default ''email'' [] = Inl AssertionFailure
   \<and> setAttribute User_default ''email'' [] \<noteq> Inl (UnrecognizedAttribute ''email'')
   \<and> SocialNetwork_of (sort_key id_of) (\<lambda>k. 0) 4 (Some empty_email_text)
       = Some (Inl AssertionFailure)"
proof -
  have "SocialNetwork_of (sort_key id_of) (\<lambda>k. 0) 4 (Some empty_email_text)
          = Some (Inl AssertionFailure)"
    by code_simp
  then show ?thesis
    by (simp add: setAttribute_def)
qed

text \<open>
  C7, amended. For every title outside the vocabulary \<open>id_str\<close>, \<open>name\<close>, \<open>location\<close>,
  \<open>pic_url\<close>, \<open>follows\<close>, \<^verbatim>\<open>setAttribute\<close> produces no user: with a non-empty title and
  non-empty data it reports the unrecognized attribute and exits, and with an empty
  title or empty data it aborts on an assertion. The turn of the constructor's loop that
  reads such an attribute ends the loop, and so the construction of the user, with that
  same failure: nothing recovers from it.
\<close>

theorem unknown_attribute_fatal:
  assumes "title \<notin> set [''id_str'', ''name'', ''location'', ''pic_url'', ''follows'']"
  shows "setAttribute u title data
           = Inl (if title = [] \<or> data = [] then AssertionFailure
                  else UnrecognizedAttribute title)
         \<and> (good ss \<and> fst (peek ss) \<noteq> Some (CHR 0x09)
              \<and> getAttributeTitle (snd (peek ss)) = (title, s1)
              \<and> getAttributeData s1 = Inr (data, s2) \<longrightarrow>
            attribute_loop ss u
              = Inl (if title = [] \<or> data = [] then AssertionFailure
                     else UnrecognizedAttribute title)
            \<and> User_from_stream uninit ss
              = Inl (if title = [] \<or> data = [] then AssertionFailure
                     else UnrecognizedAttribute title))"
proof -
  let ?e = "if title = [] \<or> data = [] then AssertionFailure else UnrecognizedAttribute title"
  have set: "setAttribute v title data = Inl ?e" for v
    using assms by (simp add: setAttribute_def)
  have loop: "attribute_loop ss v = Inl ?e"
    if "good ss" "fst (peek ss) \<noteq> Some (CHR 0x09)"
      "getAttributeTitle (snd (peek ss)) = (title, s1)"
      "getAttributeData s1 = Inr (data, s2)" for v
  proof -
    have "attribute_step (snd (peek ss)) v = Inl ?e"
      using that(3,4) set [of v] by (simp add: attribute_step_def)
    then show ?thesis
      using that(1,2) by (subst attribute_loop.simps) simp
  qed
  show ?thesis
    using set [of u] loop by (simp add: User_from_stream_def)
qed

theorem unknown_attribute_fatal_witness:
  "''email'' \<notin> set [''id_str'', ''name'', ''location'', ''pic_url'', ''follows'']
   \<and> setAttribute User_default ''email'' ''a@b'' = Inl (UnrecognizedAttribute ''email'')
   \<and> User_from_stream 0 (str email_record) = Inl (UnrecognizedAttribute ''email'')
   \<and> SocialNetwork_of (sort_key id_of) (\<lambda>k. 0) 4 (Some email_text)
       = Some (Inl (UnrecognizedAttribute ''email''))"
proof -
  have vocab: "''email'' \<notin> set [''id_str'', ''name'', ''location'', ''pic_url'', ''follows'']"
    by simp
  have entered: "good (str email_record)" "fst (peek (str email_record)) \<noteq> Some (CHR 0x09)"
    by code_simp+
  obtain s1 s2 where
    title: "getAttributeTitle (snd (peek (str email_record))) = (''email'', s1)" and
    data: "getAttributeData s1 = Inr (''a@b'', s2)"
  proof
    show "getAttributeTitle (snd (peek (str email_record)))
            = (''email'', snd (getAttributeTitle (snd (peek (str email_record)))))"
      by code_simp
    show "getAttributeData (snd (getAttributeTitle (snd (peek (str email_record)))))
            = Inr (''a@b'', snd (projr (getAttributeData
                 (snd (getAttributeTitle (snd (peek (str email_record))))))))"
      by code_simp
  qed
  have run: "SocialNetwork_of (sort_key id_of) (\<lambda>k. 0) 4 (Some email_text)
               = Some (Inl (UnrecognizedAttribute ''email''))"
    by code_simp
  from unknown_attribute_fatal [OF vocab, of User_default "''a@b''" "str email_record" s1 s2 0]
    entered title data run
  show ?thesis
    by simp
qed

section \<open>The default picture\<close>

lemma setDefaultAttributesWhenEmpty_pic_url:
  "pic_url (setDefaultAttributesWhenEmpty u)
     = (if pic_url u = [] then default_pic_url else pic_url u)"
  by (simp add: setDefaultAttributesWhenEmpty_def)

lemma default_pic_url_not_empty: "default_pic_url \<noteq> []"
  by (simp add: default_pic_url_def)

lemma setAttribute_pic_url:
  assumes "setAttribute u title data = Inr u'"
  shows "pic_url u' = (if title = ''pic_url'' then data else pic_url u)"
    and "title = ''pic_url'' \<Longrightarrow> data \<noteq> []"
  using assms by (auto simp: setAttribute_def split: if_splits sum.splits)

text \<open>
  The loop of the stream constructor changes the picture URL only when it reads an
  attribute \<open>pic_url\<close>: when it ends, the picture URL is the data of the last such
  attribute of the record, or the one the loop started with when the record has none.
  No such attribute has empty data.
\<close>

lemma attribute_loop_pic_url:
  assumes "attribute_loop ss u = Inr u'"
  shows "pic_url u' = (if pic_urls_read ss = [] then pic_url u else last (pic_urls_read ss))
         \<and> [] \<notin> set (pic_urls_read ss)"
  using assms
proof (induction ss u rule: attribute_loop.induct)
  case (1 ss u)
  show ?case
  proof (cases "good ss \<and> fst (peek ss) \<noteq> Some (CHR 0x09)")
    case False
    then have "u' = u"
      using "1.prems" by (subst (asm) attribute_loop.simps) auto
    moreover have "attributes_read ss = []"
      using False by (subst attributes_read.simps) auto
    ultimately show ?thesis
      by (simp add: pic_urls_read_def)
  next
    case True
    then obtain ss' u1 where step: "attribute_step (snd (peek ss)) u = Inr (ss', u1)"
      and rest: "attribute_loop ss' u1 = Inr u'"
      using "1.prems" by (subst (asm) attribute_loop.simps) (auto split: sum.splits)
    then obtain title data s2 where
      rd: "read_attribute (snd (peek ss)) = Inr (title, data, s2)"
      and set: "setAttribute u title data = Inr u1" and ss': "ss' = ignore1 s2"
      unfolding attribute_step_read by (auto split: sum.splits)
    have trace: "attributes_read ss = (title, data) # attributes_read ss'"
      using True rd ss' by (subst attributes_read.simps) simp
    have IH: "pic_url u' = (if pic_urls_read ss' = [] then pic_url u1 else last (pic_urls_read ss'))
         \<and> [] \<notin> set (pic_urls_read ss')"
      using "1.IH" [OF True step refl rest] .
    have urls: "pic_urls_read ss
        = (if title = ''pic_url'' then data # pic_urls_read ss' else pic_urls_read ss')"
      by (simp add: pic_urls_read_def trace)
    show ?thesis
      using IH setAttribute_pic_url [OF set] by (auto simp: urls)
  qed
qed

text \<open>
  C9. The constructor from all values gives the user the default picture URL when the
  given one is empty, and keeps a given non-empty one. The constructor from a stream
  starts with an empty picture URL; its loop leaves it empty unless the record holds an
  attribute \<open>pic_url\<close>, whose data is never empty, and no other attribute touches it.
  When the attributes are consumed the constructor applies the default once, to the
  user the loop has built, and that is the user it returns: its picture URL is the
  default one when the record holds no attribute \<open>pic_url\<close>, and the data of the last
  such attribute otherwise. Either way the picture URL of the user is not empty.
\<close>

theorem default_picture_applied:
  "pic_url (User_of i n l p f) = (if p = [] then default_pic_url else p)
   \<and> pic_url (User_of i n l p f) \<noteq> []
   \<and> (setAttribute u0 title data = Inr u1 \<longrightarrow>
        pic_url u1 = (if title = ''pic_url'' then data else pic_url u0)
        \<and> (title = ''pic_url'' \<longrightarrow> data \<noteq> []))
   \<and> (User_from_stream uninit ss = Inr u \<longrightarrow>
        pic_url u = (if pic_urls_read ss = [] then default_pic_url else last (pic_urls_read ss))
        \<and> [] \<notin> set (pic_urls_read ss)
        \<and> pic_url u \<noteq> []
        \<and> (\<exists>u'. attribute_loop ss
                    \<lparr>id_of = uninit, name = [], location = [], pic_url = [], follows = []\<rparr>
                  = Inr u'
               \<and> u = setDefaultAttributesWhenEmpty u'
               \<and> pic_url u' = (if pic_urls_read ss = [] then [] else last (pic_urls_read ss))
               \<and> pic_url u = (if pic_url u' = [] then default_pic_url else pic_url u')))"
proof -
  have full: "pic_url (User_of i n l p f) = (if p = [] then default_pic_url else p)"
    by (simp add: User_of_def setDefaultAttributesWhenEmpty_pic_url)
  then have full_not_empty: "pic_url (User_of i n l p f) \<noteq> []"
    by (simp add: default_pic_url_not_empty)
  have attribute: "pic_url u1 = (if title = ''pic_url'' then data else pic_url u0)
        \<and> (title = ''pic_url'' \<longrightarrow> data \<noteq> [])"
    if "setAttribute u0 title data = Inr u1"
    using setAttribute_pic_url [OF that] by blast
  have stream: "pic_url u = (if pic_urls_read ss = [] then default_pic_url else last (pic_urls_read ss))
        \<and> [] \<notin> set (pic_urls_read ss)
        \<and> pic_url u \<noteq> []
        \<and> (\<exists>u'. attribute_loop ss
                    \<lparr>id_of = uninit, name = [], location = [], pic_url = [], follows = []\<rparr>
                  = Inr u'
               \<and> u = setDefaultAttributesWhenEmpty u'
               \<and> pic_url u' = (if pic_urls_read ss = [] then [] else last (pic_urls_read ss))
               \<and> pic_url u = (if pic_url u' = [] then default_pic_url else pic_url u'))"
    if built: "User_from_stream uninit ss = Inr u"
  proof -
    let ?u0 = "\<lparr>id_of = uninit, name = [], location = [], pic_url = [], follows = []\<rparr>"
    obtain u' where loop: "attribute_loop ss ?u0 = Inr u'"
      and u: "u = setDefaultAttributesWhenEmpty u'"
      using built by (auto simp: User_from_stream_def split: sum.splits)
    from attribute_loop_pic_url [OF loop]
    have read: "pic_url u' = (if pic_urls_read ss = [] then [] else last (pic_urls_read ss))"
      and filled: "[] \<notin> set (pic_urls_read ss)"
      by simp_all
    have last: "last (pic_urls_read ss) \<noteq> []" if "pic_urls_read ss \<noteq> []"
      using filled last_in_set [OF that] by metis
    have applied: "pic_url u = (if pic_url u' = [] then default_pic_url else pic_url u')"
      unfolding u by (rule setDefaultAttributesWhenEmpty_pic_url)
    then have result: "pic_url u
        = (if pic_urls_read ss = [] then default_pic_url else last (pic_urls_read ss))"
      using read last by simp
    then have "pic_url u \<noteq> []"
      using last by (simp add: default_pic_url_not_empty)
    with result filled loop u read applied show ?thesis
      by blast
  qed
  from full full_not_empty attribute stream show ?thesis
    by blast
qed

theorem default_picture_applied_witness:
  "pic_url (User_of 1 ''A'' [] [] [2]) = default_pic_url
   \<and> pic_url (User_of 1 ''A'' [] ''p.jpg'' [2]) = ''p.jpg''
   \<and> setAttribute User_default ''pic_url'' ''p.jpg'' = Inr (User_default\<lparr>pic_url := ''p.jpg''\<rparr>)
   \<and> pic_url (User_default\<lparr>pic_url := ''p.jpg''\<rparr>) = ''p.jpg''
   \<and> User_from_stream 0 (str plain_record) = Inr (User_of 1 ''A'' [] [] [])
   \<and> pic_urls_read (str plain_record) = []
   \<and> pic_url (User_of 1 ''A'' [] [] []) = default_pic_url
   \<and> pic_url (User_of 1 ''A'' [] [] []) \<noteq> []
   \<and> User_from_stream 0 (str located_record) = Inr (User_of 1 ''A'' ''Paris'' [] [])
   \<and> pic_urls_read (str located_record) = []
   \<and> pic_url (User_of 1 ''A'' ''Paris'' [] []) = default_pic_url
   \<and> User_from_stream 0 (str picture_record) = Inr (User_of 1 ''A'' [] ''p.jpg'' [])
   \<and> pic_urls_read (str picture_record) = [''p.jpg'']
   \<and> pic_url (User_of 1 ''A'' [] ''p.jpg'' []) = ''p.jpg''"
proof -
  have set: "setAttribute User_default ''pic_url'' ''p.jpg''
               = Inr (User_default\<lparr>pic_url := ''p.jpg''\<rparr>)"
    by (simp add: setAttribute_def)
  have plain: "User_from_stream 0 (str plain_record) = Inr (User_of 1 ''A'' [] [] [])"
    "pic_urls_read (str plain_record) = []"
    by code_simp+
  have located: "User_from_stream 0 (str located_record) = Inr (User_of 1 ''A'' ''Paris'' [] [])"
    "pic_urls_read (str located_record) = []"
    by code_simp+
  have picture: "User_from_stream 0 (str picture_record) = Inr (User_of 1 ''A'' [] ''p.jpg'' [])"
    "pic_urls_read (str picture_record) = [''p.jpg'']"
    by code_simp+
  note applied = default_picture_applied
  from applied [where i = 1 and n = "''A''" and l = "[]" and p = "[]" and f = "[2]"]
  have a: "pic_url (User_of 1 ''A'' [] [] [2]) = default_pic_url"
    by simp
  from applied [where i = 1 and n = "''A''" and l = "[]" and p = "''p.jpg''" and f = "[2]"]
  have b: "pic_url (User_of 1 ''A'' [] ''p.jpg'' [2]) = ''p.jpg''"
    by simp
  from applied [where ?u0.0 = User_default and title = "''pic_url''" and data = "''p.jpg''"
                  and ?u1.0 = "User_default\<lparr>pic_url := ''p.jpg''\<rparr>"] set
  have c: "pic_url (User_default\<lparr>pic_url := ''p.jpg''\<rparr>) = ''p.jpg''"
    by simp
  from applied [where uninit = 0 and ss = "str plain_record" and u = "User_of 1 ''A'' [] [] []"]
    plain
  have d: "pic_url (User_of 1 ''A'' [] [] []) = default_pic_url"
    "pic_url (User_of 1 ''A'' [] [] []) \<noteq> []"
    by (simp_all add: default_pic_url_not_empty)
  from applied [where uninit = 0 and ss = "str located_record"
                  and u = "User_of 1 ''A'' ''Paris'' [] []"] located
  have e: "pic_url (User_of 1 ''A'' ''Paris'' [] []) = default_pic_url"
    by simp
  from applied [where uninit = 0 and ss = "str picture_record"
                  and u = "User_of 1 ''A'' [] ''p.jpg'' []"] picture
  have f: "pic_url (User_of 1 ''A'' [] ''p.jpg'' []) = ''p.jpg''"
    by simp
  from a b c d e f set plain located picture show ?thesis
    by blast
qed

section \<open>What the loops compute\<close>

subsection \<open>The reading loop\<close>

lemma ex_less_snoc:
  "(\<exists>k<Suc (length us). P ((us @ [u]) ! k) k)
     = ((\<exists>k<length us. P (us ! k) k) \<or> P u (length us))"
proof -
  have "(\<exists>k<Suc (length us). P ((us @ [u]) ! k) k)
      = ((\<exists>k<length us. P ((us @ [u]) ! k) k) \<or> P ((us @ [u]) ! length us) (length us))"
    by (simp add: less_Suc_eq ex_disj_distrib conj_disj_distribR)
  then show ?thesis
    by (simp add: nth_append cong: conj_cong)
qed

lemma ingest_step_inv:
  assumes "ingest_step uninit st = Inr st'" and "ingest_inv st"
  shows "ingest_inv st'"
proof -
  let ?us = "users (net st)"
  obtain s1 ud where gl: "getline (ignore (inFS st) (CHR ''{'')) (userData st) (CHR ''}'') = (s1, ud)"
    by (cases "getline (ignore (inFS st) (CHR ''{'')) (userData st) (CHR ''}'')")
  obtain newUser where built: "User_from_stream (uninit (length ?us)) (str ud) = Inr newUser"
    using assms(1) gl unfolding ingest_step_def by (simp split: sum.splits)
  have new: "isValid newUser"
    using assms(1) gl built unfolding ingest_step_def by (simp split: if_splits)
  then have id: "getId newUser = Inr (id_of newUser)"
    by (simp add: getId_def)
  let ?st' = "\<lparr>inFS = ignore1 s1, userData = ud,
                userSortingNeeded = (userSortingNeeded st \<or> id_of newUser \<noteq> nextExpectedID st),
                nextExpectedID = nextExpectedID st + 1,
                net = (net st)\<lparr>users := ?us @ [newUser],
                               numUsers := numUsers (net st) + 1\<rparr>\<rparr>"
  have "ingest_step uninit st = Inr ?st'"
    unfolding ingest_step_def using gl built new id by simp
  with assms(1) have st': "st' = ?st'"
    by (simp only: sum.inject)
  from assms(2) have inv: "followerRelationShips (net st) = []" "userNames (net st) = []"
    "numUsers (net st) = of_nat (length ?us)"
    "nextExpectedID st = of_nat (length ?us) + 1"
    "userSortingNeeded st = (\<exists>k<length ?us. id_of (?us ! k) \<noteq> of_nat k + 1)"
    "\<forall>u\<in>set ?us. isValid u"
    by (simp_all add: ingest_inv_def)
  have "userSortingNeeded ?st'
      = (\<exists>k<length (users (net ?st')). id_of (users (net ?st') ! k) \<noteq> of_nat k + 1)"
    using ex_less_snoc [of ?us "\<lambda>u k. id_of u \<noteq> of_nat k + 1" newUser] inv(4,5) by simp
  moreover have "followerRelationShips (net ?st') = []" "userNames (net ?st') = []"
    "numUsers (net ?st') = of_nat (length (users (net ?st')))"
    "nextExpectedID ?st' = of_nat (length (users (net ?st'))) + 1"
    "\<forall>u\<in>set (users (net ?st')). isValid u"
    using inv new by simp_all
  ultimately show ?thesis
    unfolding ingest_inv_def st' by blast
qed

lemma ingest_loop_inv:
  "ingest_loop uninit fuel st = Some (Inr st') \<Longrightarrow> ingest_inv st \<Longrightarrow> ingest_inv st'"
proof (induction fuel arbitrary: st)
  case 0
  then show ?case by simp
next
  case (Suc fuel)
  obtain c s1 where pk: "peek (inFS st) = (c, s1)"
    by (cases "peek (inFS st)")
  have inv1: "ingest_inv (st\<lparr>inFS := s1\<rparr>)"
    using Suc.prems(2) by (simp add: ingest_inv_def)
  show ?case
  proof (cases "c \<noteq> Some (CHR '']'')")
    case True
    then obtain st1 where step: "ingest_step uninit (st\<lparr>inFS := s1\<rparr>) = Inr st1"
      and rest: "ingest_loop uninit fuel st1 = Some (Inr st')"
      using Suc.prems(1) pk by (auto split: sum.splits)
    from Suc.IH [OF rest ingest_step_inv [OF step inv1]] show ?thesis .
  next
    case False
    then have "st' = st\<lparr>inFS := s1\<rparr>"
      using Suc.prems(1) pk by simp
    then show ?thesis
      using inv1 by simp
  qed
qed

lemma ingest_invariant:
  assumes "ingest uninit fuel file = Some (Inr st)"
  shows "ingest_inv st"
proof -
  obtain content where "file = Some content"
    using assms by (cases "file") (simp_all add: ingest_def)
  then have "ingest_loop uninit fuel
      \<lparr>inFS = ignore (str content) (CHR ''[''), userData = [], userSortingNeeded = False,
       nextExpectedID = 1,
       net = \<lparr>numUsers = 0, followerRelationShips = [], users = [], userNames = []\<rparr>\<rparr>
      = Some (Inr st)"
    using assms by (simp add: ingest_def)
  then show ?thesis
    by (rule ingest_loop_inv) (simp add: ingest_inv_def)
qed

subsection \<open>The matrix loops\<close>

text \<open>
  A counter between 0 and \<open>INT_MAX\<close> keeps its value when the comparison converts it to
  \<^verbatim>\<open>unsigned int\<close>.
\<close>

lemma uint_counter:
  "0 \<le> j \<Longrightarrow> j \<le> 2147483647 \<Longrightarrow> uint (word_of_int j :: u32) = j"
  by (simp add: uint_word_of_int take_bit_int_eq_self)

lemma counter_less:
  "0 \<le> j \<Longrightarrow> j \<le> 2147483647 \<Longrightarrow> (word_of_int j < (n :: u32)) = (j < uint n)"
  by (simp add: word_less_def uint_counter)

lemma row_loop_cells:
  assumes "row_loop u row j = Inr row'" and "0 \<le> j" and "j \<le> 2147483647"
  shows "length row' = length row
    \<and> (\<forall>k<length row. row' ! k = (row ! k \<or>
          (\<exists>m. nat j \<le> m \<and> m < unat (of_nat (length (follows u)) :: u32)
               \<and> m < length (follows u) \<and> unat (follows u ! m - 1) = k)))"
  using assms
proof (induction u row j arbitrary: row' rule: row_loop.induct)
  case (1 curUser row j)
  let ?n = "of_nat (length (follows curUser)) :: u32"
  from "1.prems"(1) have size: "getFollowsSize curUser = Inr ?n"
    by (subst (asm) row_loop.simps) (auto simp: getFollowsSize_def split: if_splits)
  show ?case
  proof (cases "word_of_int j < ?n")
    case False
    then have "row' = row"
      using "1.prems"(1) size by (subst (asm) row_loop.simps) simp
    moreover have "\<not> (\<exists>m. nat j \<le> m \<and> m < unat ?n)"
    proof -
      have "uint ?n \<le> j"
        using False "1.prems"(2,3) by (simp add: counter_less)
      then have "unat ?n \<le> nat j"
        using nat_mono [of "uint ?n" j] by simp
      then show ?thesis
        by auto
    qed
    ultimately show ?thesis
      by auto
  next
    case True
    then have j_lt: "j < uint ?n"
      using "1.prems"(2,3) by (simp add: counter_less)
    obtain f where at: "getFollowsIdAt curUser j = Inr f"
      and inside: "unat (f - 1) < length row"
      and more: "\<not> 2147483647 \<le> j"
      and rest: "row_loop curUser (row[unat (f - 1) := True]) (j + 1) = Inr row'"
      using "1.prems"(1) size True
      by (subst (asm) row_loop.simps) (auto simp: Let_def split: sum.splits if_splits)
    from at have f: "f = follows curUser ! nat j" and j_len: "nat j < length (follows curUser)"
      using "1.prems"(2) by (auto simp: getFollowsIdAt_def split: if_splits)
    have IH: "length row' = length (row[unat (f - 1) := True])
      \<and> (\<forall>k<length (row[unat (f - 1) := True]).
           row' ! k = (row[unat (f - 1) := True] ! k \<or>
             (\<exists>m. nat (j + 1) \<le> m \<and> m < unat ?n
                  \<and> m < length (follows curUser) \<and> unat (follows curUser ! m - 1) = k)))"
      using "1.prems"(2) more
      by (intro "1.IH" [OF size True at _ inside more rest]) auto
    have split: "(\<exists>m. nat j \<le> m \<and> P m) = (P (nat j) \<or> (\<exists>m. nat (j + 1) \<le> m \<and> P m))" for P
    proof -
      have eq: "nat (j + 1) = Suc (nat j)"
        using "1.prems"(2) by simp
      show ?thesis
        unfolding eq
      proof
        assume "\<exists>m\<ge>nat j. P m"
        then obtain m where "nat j \<le> m" "P m"
          by blast
        then show "P (nat j) \<or> (\<exists>m\<ge>Suc (nat j). P m)"
          by (cases "m = nat j") auto
      next
        assume "P (nat j) \<or> (\<exists>m\<ge>Suc (nat j). P m)"
        then show "\<exists>m\<ge>nat j. P m"
          using Suc_leD by blast
      qed
    qed
    have here: "nat j < unat ?n"
      using j_lt "1.prems"(2) nat_mono_iff [of "uint ?n" j] by simp
    show ?thesis
    proof (intro conjI allI impI)
      show "length row' = length row"
        using IH by simp
    next
      fix k assume k: "k < length row"
      have "row' ! k = (row[unat (f - 1) := True] ! k \<or>
             (\<exists>m. nat (j + 1) \<le> m \<and> m < unat ?n
                  \<and> m < length (follows curUser) \<and> unat (follows curUser ! m - 1) = k))"
        using IH k by simp
      moreover have "row[unat (f - 1) := True] ! k = (row ! k \<or> unat (f - 1) = k)"
        using k by (cases "unat (f - 1) = k") (simp_all add: nth_list_update)
      ultimately show "row' ! k = (row ! k \<or>
          (\<exists>m. nat j \<le> m \<and> m < unat ?n
               \<and> m < length (follows curUser) \<and> unat (follows curUser ! m - 1) = k))"
        unfolding split [of "\<lambda>m. m < unat ?n \<and> m < length (follows curUser)
                                 \<and> unat (follows curUser ! m - 1) = k"]
        using here j_len f by blast
    qed
  qed
qed


lemma matrix_loop_rows:
  assumes "matrix_loop sn i = Inr sn'" and "0 \<le> i" and "i \<le> 2147483647"
    and "i \<le> uint (numUsers sn)" and "length (followerRelationShips sn) = nat i"
  shows "numUsers sn' = numUsers sn \<and> users sn' = users sn
    \<and> length (followerRelationShips sn') = unat (numUsers sn)
    \<and> take (nat i) (followerRelationShips sn') = followerRelationShips sn
    \<and> (\<forall>k. nat i \<le> k \<and> k < unat (numUsers sn) \<longrightarrow>
          k < length (users sn)
          \<and> row_loop (users sn ! k) (replicate (unat (numUsers sn)) False) 0
              = Inr (followerRelationShips sn' ! k))"
  using assms
proof (induction sn i arbitrary: sn' rule: matrix_loop.induct)
  case (1 sn i)
  let ?N = "unat (numUsers sn)"
  show ?case
  proof (cases "word_of_int i < numUsers sn")
    case False
    then have same: "sn' = sn"
      using "1.prems"(1) by (subst (asm) matrix_loop.simps) simp
    have "uint (numUsers sn) \<le> i"
      using False "1.prems"(2,3) by (simp add: counter_less)
    then have "i = uint (numUsers sn)"
      using "1.prems"(4) by simp
    then have "nat i = ?N"
      by simp
    then show ?thesis
      using same "1.prems"(5) by auto
  next
    case True
    then have i_lt: "i < uint (numUsers sn)"
      using "1.prems"(2,3) by (simp add: counter_less)
    have i_N: "nat i < ?N"
      using i_lt "1.prems"(2) nat_mono_iff [of "uint (numUsers sn)" i] by simp
    let ?u = "users sn ! nat i"
    obtain row nm where inside: "0 \<le> i \<and> i < int (length (users sn))"
      and row: "row_loop ?u (replicate ?N False) 0 = Inr row"
      and nm: "getName ?u = Inr nm"
      and more: "\<not> 2147483647 \<le> i"
      and rest: "matrix_loop (sn\<lparr>followerRelationShips := followerRelationShips sn @ [row],
                                 userNames := userNames sn @ [nm]\<rparr>) (i + 1) = Inr sn'"
      using "1.prems"(1) True
      by (subst (asm) matrix_loop.simps) (auto simp: Let_def split: sum.splits if_splits)
    let ?sn1 = "sn\<lparr>followerRelationShips := followerRelationShips sn @ [row],
                    userNames := userNames sn @ [nm]\<rparr>"
    have nat_suc: "nat (i + 1) = Suc (nat i)"
      using "1.prems"(2) by simp
    have IH: "numUsers sn' = numUsers ?sn1 \<and> users sn' = users ?sn1
      \<and> length (followerRelationShips sn') = unat (numUsers ?sn1)
      \<and> take (nat (i + 1)) (followerRelationShips sn') = followerRelationShips ?sn1
      \<and> (\<forall>k. nat (i + 1) \<le> k \<and> k < unat (numUsers ?sn1) \<longrightarrow>
            k < length (users ?sn1)
            \<and> row_loop (users ?sn1 ! k) (replicate (unat (numUsers ?sn1)) False) 0
                = Inr (followerRelationShips sn' ! k))"
      using "1.prems"(2,5) more i_lt
      by (intro "1.IH" [OF True inside refl row nm more rest]) (simp_all add: nat_suc)
    then have tk: "take (Suc (nat i)) (followerRelationShips sn') = followerRelationShips sn @ [row]"
      by (simp add: nat_suc)
    have here: "followerRelationShips sn' ! nat i = row"
    proof -
      have "followerRelationShips sn' ! nat i
              = take (Suc (nat i)) (followerRelationShips sn') ! nat i"
        by simp
      also have "\<dots> = row"
        unfolding tk using "1.prems"(5) by (simp add: nth_append)
      finally show ?thesis .
    qed
    have before: "take (nat i) (followerRelationShips sn') = followerRelationShips sn"
    proof -
      have "take (nat i) (followerRelationShips sn')
              = take (nat i) (take (Suc (nat i)) (followerRelationShips sn'))"
        by (simp add: min_def)
      also have "\<dots> = followerRelationShips sn"
        unfolding tk using "1.prems"(5) by simp
      finally show ?thesis .
    qed
    have rows: "k < length (users sn)
          \<and> row_loop (users sn ! k) (replicate ?N False) 0 = Inr (followerRelationShips sn' ! k)"
      if "nat i \<le> k" "k < ?N" for k
    proof (cases "k = nat i")
      case True
      then show ?thesis
        using inside row here by auto
    next
      case False
      then have "nat (i + 1) \<le> k"
        using that(1) by (simp add: nat_suc)
      then show ?thesis
        using IH that(2) by simp
    qed
    show ?thesis
      using IH before rows by simp
  qed
qed

subsection \<open>The query loop\<close>

lemma follower_step_self:
  assumes "follower_step sn c other acc = Inr acc'"
    and "c \<notin> set (fst acc)" and "c \<notin> set (snd acc)"
  shows "c \<notin> set (fst acc') \<and> c \<notin> set (snd acc')"
  using assms
  by (auto simp: follower_step_def split: prod.splits if_splits sum.splits bool.splits)

lemma follower_loop_self:
  "follower_loop sn c other acc = Inr acc' \<Longrightarrow> c \<notin> set (fst acc) \<Longrightarrow> c \<notin> set (snd acc)
   \<Longrightarrow> c \<notin> set (fst acc') \<and> c \<notin> set (snd acc')"
proof (induction sn c other acc rule: follower_loop.induct)
  case (1 sn currID otherID acc)
  show ?case
  proof (cases "otherID \<le> numUsers sn")
    case True
    then obtain acc1 where step: "follower_step sn currID otherID acc = Inr acc1"
      and rest: "follower_loop sn currID (otherID + 1) acc1 = Inr acc'"
      using "1.prems"(1) by (subst (asm) follower_loop.simps) (auto split: sum.splits)
    from follower_step_self [OF step "1.prems"(2,3)]
    show ?thesis
      using "1.IH" [OF True step rest] by blast
  next
    case False
    then have "acc' = acc"
      using "1.prems"(1) by (subst (asm) follower_loop.simps) simp
    then show ?thesis
      using "1.prems"(2,3) by simp
  qed
qed

lemma follower_step_defined:
  assumes "\<exists>b. isFollowing sn other c = Inr b" and "\<exists>b. isFollowing sn c other = Inr b"
  shows "follower_step sn c other (fs, ms)
           = Inr (fs @ filter (\<lambda>x. x \<noteq> c \<and> isFollowing sn x c = Inr True) [other],
                  ms @ filter (\<lambda>x. x \<noteq> c \<and> isFollowing sn x c = Inr True
                                  \<and> isFollowing sn c x = Inr True) [other])"
  using assms by (auto simp: follower_step_def split: bool.splits)

lemma follower_loop_filter:
  fixes sn :: SocialNetwork and c :: u32
  defines "N \<equiv> unat (numUsers sn)"
  assumes small: "unat (numUsers sn) < 4294967295"
    and defined: "\<And>x. 0 < x \<Longrightarrow> x \<le> numUsers sn \<Longrightarrow>
            (\<exists>b. isFollowing sn x c = Inr b) \<and> (\<exists>b. isFollowing sn c x = Inr b)"
    and lo: "0 < unat other" and hi: "unat other \<le> Suc N"
  shows "follower_loop sn c other (fs, ms)
           = Inr (fs @ filter (\<lambda>x. x \<noteq> c \<and> isFollowing sn x c = Inr True)
                         (map of_nat [unat other..<Suc N]),
                  ms @ filter (\<lambda>x. x \<noteq> c \<and> isFollowing sn x c = Inr True
                                  \<and> isFollowing sn c x = Inr True)
                         (map of_nat [unat other..<Suc N]))"
  using lo hi
proof (induction "Suc N - unat other" arbitrary: other fs ms)
  case 0
  then have "unat other = Suc N" by simp
  then have "\<not> other \<le> numUsers sn"
    by (simp add: N_def word_le_nat_alt)
  then show ?case
    using \<open>unat other = Suc N\<close> by (subst follower_loop.simps) simp
next
  case (Suc d)
  then have le: "unat other \<le> N" by simp
  then have in_loop: "other \<le> numUsers sn"
    by (simp add: N_def word_le_nat_alt)
  have pos: "0 < other"
    using Suc.prems(1) by (simp add: word_less_nat_alt)
  have next_unat: "unat (other + 1) = Suc (unat other)"
    using le small unfolding N_def by (simp add: unat_word_ariths)
  have "[unat other..<Suc N] = unat other # [unat (other + 1)..<Suc N]"
    using le by (simp add: next_unat upt_conv_Cons del: upt_Suc)
  then have range: "map of_nat [unat other..<Suc N]
      = other # (map of_nat [unat (other + 1)..<Suc N] :: u32 list)"
    by simp
  from defined [OF pos in_loop]
  have step: "follower_step sn c other (fs, ms)
           = Inr (fs @ filter (\<lambda>x. x \<noteq> c \<and> isFollowing sn x c = Inr True) [other],
                  ms @ filter (\<lambda>x. x \<noteq> c \<and> isFollowing sn x c = Inr True
                                  \<and> isFollowing sn c x = Inr True) [other])"
    by (intro follower_step_defined) blast+
  have IH: "follower_loop sn c (other + 1) (fs', ms')
           = Inr (fs' @ filter (\<lambda>x. x \<noteq> c \<and> isFollowing sn x c = Inr True)
                         (map of_nat [unat (other + 1)..<Suc N]),
                  ms' @ filter (\<lambda>x. x \<noteq> c \<and> isFollowing sn x c = Inr True
                                  \<and> isFollowing sn c x = Inr True)
                         (map of_nat [unat (other + 1)..<Suc N]))" for fs' ms'
    using Suc.hyps(2) le by (intro Suc.hyps(1)) (simp_all add: next_unat)
  show ?case
    by (subst follower_loop.simps) (simp add: in_loop step IH range del: upt_Suc)
qed


subsection \<open>The network the constructor builds\<close>

lemma built_network:
  assumes "SocialNetwork_of std_sort uninit fuel file = Some (Inr sn)"
  obtains st where "ingest uninit fuel file = Some (Inr st)" and "assemble std_sort st = Inr sn"
  using assms unfolding SocialNetwork_of_def
  by (auto split: option.splits sum.splits)

lemma assemble_rows:
  assumes "assemble std_sort st = Inr sn" and "ingest_inv st"
  shows "numUsers sn = numUsers (net st)"
    and "users sn = (if userSortingNeeded st then std_sort (users (net st)) else users (net st))"
    and "length (followerRelationShips sn) = unat (numUsers sn)"
    and "\<And>k. k < unat (numUsers sn) \<Longrightarrow>
           k < length (users sn)
           \<and> row_loop (users sn ! k) (replicate (unat (numUsers sn)) False) 0
               = Inr (followerRelationShips sn ! k)"
proof -
  let ?sn0 = "(net st)\<lparr>users := (if userSortingNeeded st then std_sort (users (net st))
                                   else users (net st))\<rparr>"
  have loop: "matrix_loop ?sn0 0 = Inr sn"
    using assms(1) by (simp add: assemble_def sort_users_def)
  have empty: "length (followerRelationShips ?sn0) = nat 0"
    using assms(2) by (simp add: ingest_inv_def)
  have "(0::int) \<le> uint (numUsers ?sn0)"
    by simp
  from matrix_loop_rows [OF loop _ _ this empty]
  have *: "numUsers sn = numUsers ?sn0 \<and> users sn = users ?sn0
    \<and> length (followerRelationShips sn) = unat (numUsers ?sn0)
    \<and> (\<forall>k. nat 0 \<le> k \<and> k < unat (numUsers ?sn0) \<longrightarrow>
          k < length (users ?sn0)
          \<and> row_loop (users ?sn0 ! k) (replicate (unat (numUsers ?sn0)) False) 0
              = Inr (followerRelationShips sn ! k))"
    by simp
  from * show "numUsers sn = numUsers (net st)"
    by simp
  from * show "users sn = (if userSortingNeeded st then std_sort (users (net st))
                           else users (net st))"
    by simp
  from * show "length (followerRelationShips sn) = unat (numUsers sn)"
    by simp
  fix k assume "k < unat (numUsers sn)"
  with * show "k < length (users sn)
           \<and> row_loop (users sn ! k) (replicate (unat (numUsers sn)) False) 0
               = Inr (followerRelationShips sn ! k)"
    by simp
qed

lemma built_rows:
  assumes "SocialNetwork_of std_sort uninit fuel file = Some (Inr sn)"
  shows "length (followerRelationShips sn) = unat (numUsers sn)"
    and "\<And>k. k < unat (numUsers sn) \<Longrightarrow>
           k < length (users sn)
           \<and> row_loop (users sn ! k) (replicate (unat (numUsers sn)) False) 0
               = Inr (followerRelationShips sn ! k)"
proof -
  obtain st where st: "ingest uninit fuel file = Some (Inr st)" "assemble std_sort st = Inr sn"
    using assms by (rule built_network)
  note rows = assemble_rows [OF st(2) ingest_invariant [OF st(1)]]
  show "length (followerRelationShips sn) = unat (numUsers sn)"
    by (rule rows(3))
  fix k assume "k < unat (numUsers sn)"
  then show "k < length (users sn)
           \<and> row_loop (users sn ! k) (replicate (unat (numUsers sn)) False) 0
               = Inr (followerRelationShips sn ! k)"
    by (rule rows(4))
qed

lemma built_cells:
  assumes "SocialNetwork_of std_sort uninit fuel file = Some (Inr sn)"
    and "k < unat (numUsers sn)"
  shows "length (followerRelationShips sn ! k) = unat (numUsers sn)"
    and "\<And>c. c < unat (numUsers sn) \<Longrightarrow>
          followerRelationShips sn ! k ! c
            = (\<exists>m. m < unat (of_nat (length (follows (users sn ! k))) :: u32)
                   \<and> m < length (follows (users sn ! k))
                   \<and> unat (follows (users sn ! k) ! m - 1) = c)"
proof -
  let ?N = "unat (numUsers sn)"
  have row: "row_loop (users sn ! k) (replicate ?N False) 0 = Inr (followerRelationShips sn ! k)"
    using built_rows(2) [OF assms] by simp
  from row_loop_cells [OF row]
  have *: "length (followerRelationShips sn ! k) = length (replicate ?N False)
    \<and> (\<forall>c<length (replicate ?N False).
          followerRelationShips sn ! k ! c = (replicate ?N False ! c \<or>
          (\<exists>m. nat 0 \<le> m \<and> m < unat (of_nat (length (follows (users sn ! k))) :: u32)
               \<and> m < length (follows (users sn ! k))
               \<and> unat (follows (users sn ! k) ! m - 1) = c)))"
    by simp
  then show "length (followerRelationShips sn ! k) = ?N"
    by simp
  fix c assume "c < ?N"
  with * show "followerRelationShips sn ! k ! c
            = (\<exists>m. m < unat (of_nat (length (follows (users sn ! k))) :: u32)
                   \<and> m < length (follows (users sn ! k))
                   \<and> unat (follows (users sn ! k) ! m - 1) = c)"
    by simp
qed

lemma unat_pred: "0 < (w :: u32) \<Longrightarrow> unat (w - 1) = unat w - 1"
  by (simp add: unat_minus_one word_neq_0_conv)

lemma unat_pos: "0 < (w :: u32) \<Longrightarrow> 0 < unat w"
  by (simp add: word_less_nat_alt)

lemma isFollowing_built:
  assumes "SocialNetwork_of std_sort uninit fuel file = Some (Inr sn)"
    and "0 < a" and "a \<le> numUsers sn" and "0 < b" and "b \<le> numUsers sn"
  shows "isFollowing sn a b
           = Inr (followerRelationShips sn ! (unat a - 1) ! (unat b - 1))"
proof -
  let ?N = "unat (numUsers sn)"
  have a: "unat a - 1 < ?N" and b: "unat b - 1 < ?N"
    using assms(2-5) unat_pos [of a] unat_pos [of b] by (simp_all add: word_le_nat_alt)
  have "unat a - 1 < length (followerRelationShips sn)"
    using a built_rows(1) [OF assms(1)] by simp
  moreover have "unat b - 1 < length (followerRelationShips sn ! (unat a - 1))"
    using b built_cells(1) [OF assms(1) a] by simp
  ultimately show ?thesis
    using assms(2,4) by (simp add: isFollowing_def unat_pred Let_def)
qed


lemma unat_of_nat_u32: "n < 4294967296 \<Longrightarrow> unat (of_nat n :: u32) = n"
  by (simp add: unat_of_nat)

lemma ids_upto_set:
  assumes "N < 4294967296"
  shows "set (map of_nat [1..<Suc N] :: u32 list) = {x. 0 < x \<and> unat x \<le> N}"
proof (intro set_eqI iffI)
  fix x :: u32
  assume "x \<in> set (map of_nat [1..<Suc N])"
  then obtain n where n: "1 \<le> n" "n \<le> N" "x = of_nat n"
    by auto
  then have "unat x = n"
    using assms by (simp add: unat_of_nat_u32)
  then show "x \<in> {x. 0 < x \<and> unat x \<le> N}"
    using n by (simp add: word_less_nat_alt)
next
  fix x :: u32
  assume "x \<in> {x. 0 < x \<and> unat x \<le> N}"
  then have "1 \<le> unat x" "unat x \<le> N" "x = of_nat (unat x)"
    using unat_pos [of x] by simp_all
  then show "x \<in> set (map of_nat [1..<Suc N])"
    by (metis (no_types, lifting) atLeastLessThan_iff image_eqI le_imp_less_Suc list.set_map set_upt)
qed

lemma ids_upto_sorted:
  assumes "N < 4294967296"
  shows "sorted_wrt (<) (map of_nat [1..<Suc N] :: u32 list)"
proof -
  have "sorted_wrt (\<lambda>x y. (of_nat x :: u32) < of_nat y) [1..<Suc N]"
  proof (rule sorted_wrt_mono_rel [of _ "(<)"])
    fix x y assume "x \<in> set [1..<Suc N]" "y \<in> set [1..<Suc N]" "x < y"
    then have "x < 4294967296" "y < 4294967296"
      using assms by auto
    then have "unat (of_nat x :: u32) = x" "unat (of_nat y :: u32) = y"
      by (simp_all add: unat_of_nat_u32)
    then show "(of_nat x :: u32) < of_nat y"
      using \<open>x < y\<close> by (simp add: word_less_nat_alt)
  next
    show "sorted_wrt (<) [1..<Suc N]"
      by (rule sorted_wrt_upt)
  qed
  then show ?thesis
    by (simp add: sorted_wrt_map del: upt_Suc)
qed

lemma query_of_built:
  assumes built: "SocialNetwork_of std_sort uninit fuel file = Some (Inr sn)"
    and small: "unat (numUsers sn) < 4294967295"
    and lo: "0 < currID" and hi: "currID \<le> numUsers sn"
  shows "getFollowerAndMutualsFromId sn [] [] currID
           = Inr (filter (\<lambda>x. x \<noteq> currID \<and> isFollowing sn x currID = Inr True)
                    (map of_nat [1..<Suc (unat (numUsers sn))]),
                  filter (\<lambda>x. x \<noteq> currID \<and> isFollowing sn x currID = Inr True
                             \<and> isFollowing sn currID x = Inr True)
                    (map of_nat [1..<Suc (unat (numUsers sn))]))"
proof -
  let ?N = "unat (numUsers sn)"
  let ?F = "\<lambda>x. x \<noteq> currID \<and> isFollowing sn x currID = Inr True"
  let ?M = "\<lambda>x. x \<noteq> currID \<and> isFollowing sn x currID = Inr True
                \<and> isFollowing sn currID x = Inr True"
  have defined: "(\<exists>b. isFollowing sn x currID = Inr b) \<and> (\<exists>b. isFollowing sn currID x = Inr b)"
    if "0 < x" "x \<le> numUsers sn" for x
    using isFollowing_built [OF built that lo hi] isFollowing_built [OF built lo hi that]
    by simp
  have "follower_loop sn currID 1 ([], [])
          = Inr ([] @ filter ?F (map of_nat [unat (1 :: u32)..<Suc ?N]),
                 [] @ filter ?M (map of_nat [unat (1 :: u32)..<Suc ?N]))"
    by (rule follower_loop_filter [OF small defined]) simp_all
  then show ?thesis
    by (simp add: getFollowerAndMutualsFromId_def del: upt_Suc)
qed

section \<open>Followers and mutuals\<close>

text \<open>
  C1. Let the constructor have built a network of \<open>N\<close> users, where \<open>N + 1\<close> still fits
  the \<^verbatim>\<open>unsigned int\<close> counter of the loop, and let \<open>currID\<close> be an id between 1 and \<open>N\<close>.
  Called with empty vectors, \<^verbatim>\<open>getFollowerAndMutualsFromId\<close> returns; the followers are
  exactly the ids \<open>x\<close> between 1 and \<open>N\<close>, other than \<open>currID\<close>, with
  \<open>isFollowing(x, currID)\<close> true; the mutuals are exactly the followers \<open>x\<close> with
  \<open>isFollowing(currID, x)\<close> true; both lists are in strictly ascending order. No
  assumption on the ids of the users is needed.
\<close>

theorem followers_and_mutuals_listed:
  assumes built: "SocialNetwork_of std_sort uninit fuel file = Some (Inr sn)"
    and small: "unat (numUsers sn) < 4294967295"
    and lo: "0 < currID" and hi: "currID \<le> numUsers sn"
  shows "\<exists>followers mutuals.
           getFollowerAndMutualsFromId sn [] [] currID = Inr (followers, mutuals)
           \<and> set followers
               = {x. 0 < x \<and> x \<le> numUsers sn \<and> x \<noteq> currID \<and> isFollowing sn x currID = Inr True}
           \<and> sorted_wrt (<) followers
           \<and> set mutuals = {x \<in> set followers. isFollowing sn currID x = Inr True}
           \<and> sorted_wrt (<) mutuals"
proof -
  let ?N = "unat (numUsers sn)"
  let ?ids = "map of_nat [1..<Suc ?N] :: u32 list"
  let ?F = "\<lambda>x. x \<noteq> currID \<and> isFollowing sn x currID = Inr True"
  let ?M = "\<lambda>x. x \<noteq> currID \<and> isFollowing sn x currID = Inr True
                \<and> isFollowing sn currID x = Inr True"
  have N: "?N < 4294967296"
    using small by simp
  have result: "getFollowerAndMutualsFromId sn [] [] currID
                  = Inr (filter ?F ?ids, filter ?M ?ids)"
    by (rule query_of_built [OF built small lo hi])
  have ids: "set ?ids = {x. 0 < x \<and> x \<le> numUsers sn}"
    using ids_upto_set [OF N] by (simp add: word_le_nat_alt del: upt_Suc)
  have "set (filter ?F ?ids)
          = {x. 0 < x \<and> x \<le> numUsers sn \<and> x \<noteq> currID \<and> isFollowing sn x currID = Inr True}"
    unfolding set_filter ids by blast
  moreover have "set (filter ?M ?ids)
          = {x \<in> set (filter ?F ?ids). isFollowing sn currID x = Inr True}"
    unfolding set_filter by blast
  moreover have "sorted_wrt (<) (filter ?F ?ids)" "sorted_wrt (<) (filter ?M ?ids)"
    using ids_upto_sorted [OF N] by (simp_all add: sorted_wrt_filter del: upt_Suc)
  ultimately show ?thesis
    using result by blast
qed

theorem followers_and_mutuals_listed_witness:
  "SocialNetwork_of (sort_key id_of) (\<lambda>k. 0) 4 (Some network_text) = Some (Inr network3)
   \<and> unat (numUsers network3) < 4294967295
   \<and> (0 :: u32) < 1 \<and> 1 \<le> numUsers network3
   \<and> getFollowerAndMutualsFromId network3 [] [] 1 = Inr ([2], [2])
   \<and> set [2] = {x. 0 < x \<and> x \<le> numUsers network3 \<and> x \<noteq> 1
                    \<and> isFollowing network3 x 1 = Inr True}
   \<and> set [2] = {x \<in> set [2]. isFollowing network3 1 x = Inr True}"
proof -
  have small: "unat (numUsers network3) < 4294967295"
    by (simp add: network3_def)
  have lo: "(0 :: u32) < 1"
    by simp
  have hi: "1 \<le> numUsers network3"
    by (simp add: network3_def)
  have run: "getFollowerAndMutualsFromId network3 [] [] 1 = Inr ([2], [2])"
    by code_simp
  from followers_and_mutuals_listed [OF network3_built small lo hi]
  obtain followers mutuals where
    "getFollowerAndMutualsFromId network3 [] [] 1 = Inr (followers, mutuals)"
    "set followers = {x. 0 < x \<and> x \<le> numUsers network3 \<and> x \<noteq> 1
                         \<and> isFollowing network3 x 1 = Inr True}"
    "set mutuals = {x \<in> set followers. isFollowing network3 1 x = Inr True}"
    by blast
  with run have
    "set [2] = {x. 0 < x \<and> x \<le> numUsers network3 \<and> x \<noteq> 1
                   \<and> isFollowing network3 x 1 = Inr True}"
    "set [2] = {x \<in> set [2]. isFollowing network3 1 x = Inr True}"
    by simp_all
  with network3_built small lo hi run show ?thesis
    by blast
qed

text \<open>
  C5. Whatever the network, a user's id is never in the followers or the mutuals that
  \<^verbatim>\<open>getFollowerAndMutualsFromId\<close> returns for that user. And for a network that the
  constructor has built, of \<open>N\<close> users with \<open>N + 1\<close> within \<^verbatim>\<open>unsigned int\<close>, and an id
  between 1 and \<open>N\<close>, the function does return such lists. In the example the second user
  follows itself, so that \<open>isFollowing(2, 2)\<close> is true, and is still not listed.
\<close>

theorem self_never_listed:
  "(getFollowerAndMutualsFromId sn [] [] currID = Inr (followers, mutuals) \<longrightarrow>
      currID \<notin> set followers \<and> currID \<notin> set mutuals)
   \<and> (SocialNetwork_of std_sort uninit fuel file = Some (Inr sn)
        \<and> unat (numUsers sn) < 4294967295 \<and> 0 < currID \<and> currID \<le> numUsers sn \<longrightarrow>
      (\<exists>fs ms. getFollowerAndMutualsFromId sn [] [] currID = Inr (fs, ms)
          \<and> currID \<notin> set fs \<and> currID \<notin> set ms))"
proof -
  have never: "currID \<notin> set fs \<and> currID \<notin> set ms"
    if "getFollowerAndMutualsFromId sn [] [] currID = Inr (fs, ms)" for fs ms
    using follower_loop_self [of sn currID 1 "([], [])" "(fs, ms)"] that
    by (simp add: getFollowerAndMutualsFromId_def)
  have returns: "\<exists>fs ms. getFollowerAndMutualsFromId sn [] [] currID = Inr (fs, ms)"
    if "SocialNetwork_of std_sort uninit fuel file = Some (Inr sn)"
      "unat (numUsers sn) < 4294967295" "0 < currID" "currID \<le> numUsers sn"
    using query_of_built [OF that] by blast
  from never returns show ?thesis
    by blast
qed

theorem self_never_listed_witness:
  "SocialNetwork_of (sort_key id_of) (\<lambda>k. 0) 4 (Some network_text) = Some (Inr network3)
   \<and> unat (numUsers network3) < 4294967295 \<and> (0 :: u32) < 2 \<and> 2 \<le> numUsers network3
   \<and> users network3 ! 1 = user_B \<and> id_of user_B = 2 \<and> 2 \<in> set (follows user_B)
   \<and> isFollowing network3 2 2 = Inr True
   \<and> getFollowerAndMutualsFromId network3 [] [] 2 = Inr ([1], [1])
   \<and> (2 :: u32) \<notin> set [1]"
proof -
  have run: "getFollowerAndMutualsFromId network3 [] [] 2 = Inr ([1], [1])"
    by code_simp
  have self: "isFollowing network3 2 2 = Inr True"
    by code_simp
  have range: "unat (numUsers network3) < 4294967295" "2 \<le> numUsers network3"
    by (simp_all add: network3_def)
  from self_never_listed
         [of network3 2 "[1]" "[1]" "sort_key id_of" "\<lambda>k. 0" 4 "Some network_text"]
    run self range network3_built
  show ?thesis
    by (simp add: network3_def user_B_def)
qed

section \<open>The matrix and the follows lists\<close>

text \<open>
  C2. Let the constructor have built a network of \<open>N\<close> users, let \<open>i < N\<close> be a position
  in the (sorted) user collection, whose follows list has fewer than \<open>2^32\<close> entries (its
  size fits the \<^verbatim>\<open>unsigned int\<close> that \<^verbatim>\<open>getFollowsSize\<close> returns), and let \<open>f\<close> be an id
  between 1 and \<open>N\<close>. Then \<open>isFollowing(i + 1, f)\<close> returns true if \<open>f\<close> occurs in the
  follows list of the user at position \<open>i\<close>, and false if not.
\<close>

theorem matrix_round_trip:
  assumes built: "SocialNetwork_of std_sort uninit fuel file = Some (Inr sn)"
    and position: "i < unat (numUsers sn)"
    and fits: "length (follows (users sn ! i)) < 4294967296"
    and lo: "0 < f" and hi: "f \<le> numUsers sn"
  shows "isFollowing sn (of_nat i + 1) f = Inr (f \<in> set (follows (users sn ! i)))"
proof -
  let ?N = "unat (numUsers sn)"
  let ?fs = "follows (users sn ! i)"
  have N: "?N < 4294967296"
    using unsigned_less [of "numUsers sn"] by simp
  have i: "unat (of_nat i :: u32) = i"
    using position N by (simp add: unat_of_nat_u32)
  have row: "unat (of_nat i + 1 :: u32) = Suc i"
    using position N i by (simp add: unat_word_ariths)
  then have row_lo: "0 < (of_nat i + 1 :: u32)" and row_hi: "(of_nat i + 1 :: u32) \<le> numUsers sn"
    using position by (simp_all add: word_less_nat_alt word_le_nat_alt)
  have col: "unat f - 1 < ?N"
    using lo hi unat_pos [of f] by (simp add: word_le_nat_alt)
  have size: "unat (of_nat (length ?fs) :: u32) = length ?fs"
    using fits by (simp add: unat_of_nat_u32)
  have same: "(unat (w - 1) = unat f - Suc 0) = (w = f)" for w :: u32
  proof -
    have "(unat (w - 1) = unat f - Suc 0) = (unat (w - 1) = unat (f - 1))"
      using lo by (simp add: unat_pred)
    also have "\<dots> = (w - 1 = f - 1)"
      by (simp add: word_unat_eq_iff)
    also have "\<dots> = (w = f)"
      by simp
    finally show ?thesis .
  qed
  have "isFollowing sn (of_nat i + 1) f
          = Inr (followerRelationShips sn ! (unat (of_nat i + 1 :: u32) - 1) ! (unat f - 1))"
    by (rule isFollowing_built [OF built row_lo row_hi lo hi])
  also have "\<dots> = Inr (followerRelationShips sn ! i ! (unat f - 1))"
    by (simp add: row)
  also have "followerRelationShips sn ! i ! (unat f - 1)
               = (\<exists>m. m < length ?fs \<and> ?fs ! m = f)"
    using built_cells(2) [OF built position col] by (simp add: size same)
  also have "\<dots> = (f \<in> set ?fs)"
    by (auto simp: in_set_conv_nth)
  finally show ?thesis .
qed

theorem matrix_round_trip_witness:
  "SocialNetwork_of (sort_key id_of) (\<lambda>k. 0) 4 (Some network_text) = Some (Inr network3)
   \<and> (0 :: nat) < unat (numUsers network3)
   \<and> length (follows (users network3 ! 0)) < 4294967296
   \<and> follows (users network3 ! 0) = [2, 3]
   \<and> (0 :: u32) < 3 \<and> 3 \<le> numUsers network3 \<and> (0 :: u32) < 1 \<and> 1 \<le> numUsers network3
   \<and> isFollowing network3 (of_nat 0 + 1) 3 = Inr True
   \<and> isFollowing network3 (of_nat 0 + 1) 1 = Inr False"
proof -
  have position: "(0 :: nat) < unat (numUsers network3)"
    by (simp add: network3_def)
  have fs: "follows (users network3 ! 0) = [2, 3]"
    by (simp add: network3_def user_A_def)
  then have fits: "length (follows (users network3 ! 0)) < 4294967296"
    by simp
  have hi: "3 \<le> numUsers network3" "1 \<le> numUsers network3"
    by (simp_all add: network3_def)
  have lo: "(0 :: u32) < 3" "(0 :: u32) < 1"
    by simp_all
  from matrix_round_trip [OF network3_built position fits lo(1) hi(1)]
    matrix_round_trip [OF network3_built position fits lo(2) hi(2)]
    network3_built position fits fs hi
  show ?thesis
    by simp
qed


section \<open>Sorting the users\<close>

text \<open>Two lists of the same users, both ascending by id, are equal when no id repeats.\<close>

lemma sorted_by_id_unique:
  assumes "mset xs = mset ys" and "sorted (map id_of xs)" and "sorted (map id_of ys)"
    and "distinct (map id_of xs)"
  shows "xs = ys"
proof -
  have "mset (map id_of xs) = mset (map id_of ys)"
    using assms(1) by simp
  then have d: "distinct (map id_of ys)"
    using assms(4) mset_eq_imp_distinct_iff by blast
  have set: "set xs = set ys"
    using assms(1) by (rule mset_eq_setD)
  have "inj_on id_of (set xs)"
    using assms(4) by (simp add: distinct_map)
  then have inj: "inj_on id_of (set xs \<union> set ys)"
    using set by simp
  show ?thesis
    by (rule map_sorted_distinct_set_unique [OF inj assms(2,4) assms(3) d set])
qed

lemma std_sort_sorted:
  assumes "std_sort_contract std_sort"
  shows "mset (std_sort us) = mset us" and "sorted (map id_of (std_sort us))"
  using assms by (simp_all add: std_sort_contract_def sorted_wrt_user_less)



section \<open>The order of arrival\<close>

lemma ids_upto_nth:
  assumes "map id_of us = map of_nat [1..<Suc N]" and "k < length us"
  shows "id_of (us ! k) = of_nat k + 1"
proof -
  have len: "length us = N"
    using arg_cong [OF assms(1), of length] by simp
  have "id_of (us ! k) = map id_of us ! k"
    using assms(2) by simp
  also have "\<dots> = of_nat ([1..<Suc N] ! k)"
    unfolding assms(1) using assms(2) len by (simp del: upt_Suc)
  also have "[1..<Suc N] ! k = 1 + k"
    using assms(2) len by (intro nth_upt) simp
  finally show ?thesis
    by simp
qed

lemma ids_from_counter:
  assumes "\<forall>k<length us. id_of (us ! k) = of_nat k + 1"
  shows "map id_of us = map of_nat [1..<Suc (length us)]"
proof (rule nth_equalityI)
  show "length (map id_of us) = length (map of_nat [1..<Suc (length us)] :: u32 list)"
    by (simp del: upt_Suc)
next
  fix k assume "k < length (map id_of us)"
  then have k: "k < length us"
    by simp
  have "[1..<Suc (length us)] ! k = 1 + k"
    using k by (intro nth_upt) simp
  then show "map id_of us ! k = (map of_nat [1..<Suc (length us)] :: u32 list) ! k"
    using k assms by (simp del: upt_Suc)
qed

text \<open>
  C3. Let two inputs be read to the end, the second one bringing users with the ids
  \<open>1, \<dots>, N\<close> in this order, the first one the same users in any order. Then the sorted
  collection of the first is the collection of the second, and the constructor gives the
  same result for both: the same users, the same matrix, and so the same followers and
  mutuals for every id.
\<close>

theorem arrival_order_irrelevant:
  assumes contract: "std_sort_contract std_sort"
    and readA: "ingest uninitA fuelA fileA = Some (Inr stA)"
    and readB: "ingest uninitB fuelB fileB = Some (Inr stB)"
    and same: "mset (users (net stA)) = mset (users (net stB))"
    and dense: "map id_of (users (net stB)) = map of_nat [1..<Suc N]"
    and fits: "N < 4294967296"
  shows "users (sort_users std_sort stA) = users (net stB)
         \<and> sort_users std_sort stA = sort_users std_sort stB
         \<and> SocialNetwork_of std_sort uninitA fuelA fileA
             = SocialNetwork_of std_sort uninitB fuelB fileB
         \<and> (\<forall>snA snB.
               SocialNetwork_of std_sort uninitA fuelA fileA = Some (Inr snA)
               \<and> SocialNetwork_of std_sort uninitB fuelB fileB = Some (Inr snB) \<longrightarrow>
               users snA = users snB
               \<and> followerRelationShips snA = followerRelationShips snB
               \<and> (\<forall>currID. getFollowerAndMutualsFromId snA [] [] currID
                              = getFollowerAndMutualsFromId snB [] [] currID))"
proof -
  let ?A = "users (net stA)" and ?B = "users (net stB)"
  have invA: "ingest_inv stA"
    using readA by (rule ingest_invariant)
  have invB: "ingest_inv stB"
    using readB by (rule ingest_invariant)
  have len: "length ?A = length ?B"
    using same by (rule mset_eq_length)
  have lenB: "length ?B = N"
    using arg_cong [OF dense, of length] by simp
  have strict: "sorted_wrt (<) (map id_of ?B)"
    unfolding dense by (rule ids_upto_sorted [OF fits])
  then have sortedB: "sorted (map id_of ?B)" and distinctB: "distinct (map id_of ?B)"
    by (simp_all add: strict_sorted_iff)
  have flagB: "\<not> userSortingNeeded stB"
    using invB ids_upto_nth [OF dense] by (simp add: ingest_inv_def)
  have usersA: "users (sort_users std_sort stA) = ?B"
  proof (cases "userSortingNeeded stA")
    case True
    have "?B = std_sort ?A"
    proof (rule sorted_by_id_unique [OF _ sortedB _ distinctB])
      show "mset ?B = mset (std_sort ?A)"
        using std_sort_sorted(1) [OF contract] same by simp
      show "sorted (map id_of (std_sort ?A))"
        by (rule std_sort_sorted(2) [OF contract])
    qed
    then show ?thesis
      using True by (simp add: sort_users_def)
  next
    case False
    then have "\<forall>k<length ?A. id_of (?A ! k) = of_nat k + 1"
      using invA by (simp add: ingest_inv_def)
    then have idsA: "map id_of ?A = map id_of ?B"
      unfolding dense using ids_from_counter [of ?A] len lenB by simp
    have "?B = ?A"
      by (rule sorted_by_id_unique [OF same [symmetric] sortedB _ distinctB])
         (simp add: idsA sortedB)
    then show ?thesis
      using False by (simp add: sort_users_def)
  qed
  have usersB: "users (sort_users std_sort stB) = ?B"
    using flagB by (simp add: sort_users_def)
  have "numUsers (net stA) = numUsers (net stB)"
    "followerRelationShips (net stA) = followerRelationShips (net stB)"
    "userNames (net stA) = userNames (net stB)"
    using invA invB len by (simp_all add: ingest_inv_def)
  then have rest: "numUsers (sort_users std_sort stA) = numUsers (sort_users std_sort stB)"
    "followerRelationShips (sort_users std_sort stA)
       = followerRelationShips (sort_users std_sort stB)"
    "userNames (sort_users std_sort stA) = userNames (sort_users std_sort stB)"
    by (simp_all add: sort_users_def)
  have sorted_same: "sort_users std_sort stA = sort_users std_sort stB"
    using usersA usersB rest by (intro SocialNetwork.equality) simp_all
  then have "assemble std_sort stA = assemble std_sort stB"
    by (simp add: assemble_def)
  then have built_same: "SocialNetwork_of std_sort uninitA fuelA fileA
             = SocialNetwork_of std_sort uninitB fuelB fileB"
    using readA readB by (simp add: SocialNetwork_of_def)
  from usersA sorted_same built_same show ?thesis
    by auto
qed

theorem arrival_order_irrelevant_witness:
  "std_sort_contract (sort_key id_of)
   \<and> ingest (\<lambda>k. 0) 4 (Some shuffled_text) = Some (Inr shuffled_read)
   \<and> ingest (\<lambda>k. 0) 4 (Some network_text) = Some (Inr network_read)
   \<and> map id_of (users (net shuffled_read)) = [2, 1, 3]
   \<and> mset (users (net shuffled_read)) = mset (users (net network_read))
   \<and> map id_of (users (net network_read)) = map of_nat [1..<Suc 3]
   \<and> (3 :: nat) < 4294967296
   \<and> users (sort_users (sort_key id_of) shuffled_read) = users (net network_read)
   \<and> SocialNetwork_of (sort_key id_of) (\<lambda>k. 0) 4 (Some shuffled_text)
       = SocialNetwork_of (sort_key id_of) (\<lambda>k. 0) 4 (Some network_text)
   \<and> SocialNetwork_of (sort_key id_of) (\<lambda>k. 0) 4 (Some network_text) = Some (Inr network3)"
proof -
  have ids: "map id_of (users (net shuffled_read)) = [2, 1, 3]"
    by (simp add: shuffled_read_def user_A_def user_B_def user_C_def)
  have same: "mset (users (net shuffled_read)) = mset (users (net network_read))"
    by (simp add: shuffled_read_def network_read_def)
  have dense: "map id_of (users (net network_read)) = map of_nat [1..<Suc 3]"
    by (simp add: network_read_def user_A_def user_B_def user_C_def upt_rec)
  have fits: "(3 :: nat) < 4294967296"
    by simp
  from arrival_order_irrelevant
         [OF std_sort_contract_sort_key shuffled_text_read network_text_read same dense fits]
  have sorted: "users (sort_users (sort_key id_of) shuffled_read) = users (net network_read)"
    and built: "SocialNetwork_of (sort_key id_of) (\<lambda>k. 0) 4 (Some shuffled_text)
                  = SocialNetwork_of (sort_key id_of) (\<lambda>k. 0) 4 (Some network_text)"
    by blast+
  from std_sort_contract_sort_key shuffled_text_read network_text_read ids same dense fits
    sorted built network3_built
  show ?thesis
    by blast
qed


section \<open>The follows array\<close>

lemma quoted_list_Cons:
  \<open>quoted_list (t # ts)
     = CHR ''"'' # t @ CHR ''"'' # (if ts = [] then [] else CHR '','' # quoted_list ts)\<close>
  by (cases ts) simp_all

lemma dropWhile_until: "d \<notin> set xs \<Longrightarrow> dropWhile (\<lambda>c. c \<noteq> d) (xs @ d # ys) = d # ys"
  by (induction xs) auto

lemma takeWhile_until: "d \<notin> set xs \<Longrightarrow> takeWhile (\<lambda>c. c \<noteq> d) (xs @ d # ys) = xs"
  by (induction xs) auto

lemma array_step_token:
  assumes \<open>CHR ''"'' \<notin> set t\<close>
    and \<open>buf s = pre @ CHR ''"'' # t @ CHR ''"'' # rest\<close> and \<open>CHR ''"'' \<notin> set pre\<close> and "good s"
  shows "array_step s v arr
           = (case stoi t of
                Inl e \<Rightarrow> Inl e
              | Inr n \<Rightarrow> Inr (s\<lparr>buf := rest\<rparr>, t, arr @ [word_of_int n]))"
proof -
  have drop_pre: \<open>dropWhile (\<lambda>c. c \<noteq> CHR ''"'') (buf s) = CHR ''"'' # t @ CHR ''"'' # rest\<close>
    using assms(2,3) by (simp add: dropWhile_until)
  have skipped: \<open>ignore s (CHR ''"'') = s\<lparr>buf := t @ CHR ''"'' # rest\<rparr>\<close>
    using assms(2,4) drop_pre by (simp add: ignore_def)
  have \<open>dropWhile (\<lambda>c. c \<noteq> CHR ''"'') (t @ CHR ''"'' # rest) = CHR ''"'' # rest\<close>
    \<open>takeWhile (\<lambda>c. c \<noteq> CHR ''"'') (t @ CHR ''"'' # rest) = t\<close>
    using assms(1) by (simp_all add: dropWhile_until takeWhile_until)
  then have \<open>getline (s\<lparr>buf := t @ CHR ''"'' # rest\<rparr>) v (CHR ''"'') = (s\<lparr>buf := rest\<rparr>, t)\<close>
    using assms(4) by (simp add: getline_def)
  then show ?thesis
    by (simp add: array_step_def skipped)
qed

lemma peek_either_first:
  assumes "good s" and "buf s = c # r" and "c = a \<or> c = b"
  shows "peek_either s a b = (True, s)"
  using assms by (auto simp: peek_either_def peek_def)

lemma array_loop_end:
  assumes "buf s = []"
  shows "array_loop s v arr = Inr arr"
proof -
  obtain s' where \<open>peek_either s (CHR '','') (CHR ''"'') = (False, s')\<close>
    using assms by (cases "good s") (simp_all add: peek_either_def peek_def)
  then show ?thesis
    by (subst array_loop.simps) simp
qed

lemma array_loop_tokens:
  assumes \<open>\<forall>t\<in>set ts. CHR ''"'' \<notin> set t\<close> and "good s"
    and \<open>buf s = quoted_list ts \<or> (ts \<noteq> [] \<and> buf s = CHR '','' # quoted_list ts)\<close>
  shows "array_loop s v arr
           = (case convert_all ts of Inl e \<Rightarrow> Inl e | Inr vs \<Rightarrow> Inr (arr @ vs))"
  using assms
proof (induction ts arbitrary: s v arr)
  case Nil
  then show ?case
    by (simp add: array_loop_end)
next
  case (Cons t ts)
  let ?rest = \<open>if ts = [] then [] else CHR '','' # quoted_list ts\<close>
  obtain pre where pre: \<open>buf s = pre @ CHR ''"'' # t @ CHR ''"'' # ?rest\<close>
    and pre_cases: \<open>pre = [] \<or> pre = [CHR '','']\<close>
    using Cons.prems(3) unfolding quoted_list_Cons by auto
  then have no_quote: \<open>CHR ''"'' \<notin> set pre\<close>
    by auto
  have first: \<open>\<exists>c r. buf s = c # r \<and> (c = CHR '','' \<or> c = CHR ''"'')\<close>
    using pre pre_cases by auto
  then have enter: \<open>peek_either s (CHR '','') (CHR ''"'') = (True, s)\<close>
    using peek_either_first [OF Cons.prems(2)] by blast
  have t: \<open>CHR ''"'' \<notin> set t\<close>
    using Cons.prems(1) by simp
  note step = array_step_token [OF t pre no_quote Cons.prems(2), of v arr]
  show ?case
  proof (cases "stoi t")
    case (Inl e)
    then show ?thesis
      by (subst array_loop.simps) (simp add: enter step)
  next
    case (Inr n)
    have IH: "array_loop (s\<lparr>buf := ?rest\<rparr>) t (arr @ [word_of_int n])
                = (case convert_all ts of
                     Inl e \<Rightarrow> Inl e
                   | Inr vs \<Rightarrow> Inr ((arr @ [word_of_int n]) @ vs))"
      using Cons.prems(1,2) by (intro Cons.IH) auto
    show ?thesis
      by (subst array_loop.simps) (simp add: enter step Inr IH split: sum.splits)
  qed
qed


lemma isdigit_other:
  assumes "isdigit c"
  shows "\<not> isspace c" and "c \<noteq> CHR ''-''" and "c \<noteq> CHR ''+''" and \<open>c \<noteq> CHR ''"''\<close>
    and "0 \<le> digit_val c"
  using assms by (auto simp: isdigit_def isspace_def digit_val_def)

lemma takeWhile_all:
  "\<forall>x\<in>set xs. P x \<Longrightarrow> ys = [] \<or> \<not> P (hd ys) \<Longrightarrow> takeWhile P (xs @ ys) = xs"
  by (induction xs) (auto simp: takeWhile_eq_Nil_iff)

lemma digits_val_nonneg:
  assumes "\<forall>c\<in>set ds. isdigit c"
  shows "0 \<le> digits_val ds"
proof -
  have "0 \<le> foldl (\<lambda>a c. 10 * a + digit_val c) a0 ds" if "0 \<le> a0" for a0
    using assms that
  proof (induction ds arbitrary: a0)
    case Nil
    then show ?case by simp
  next
    case (Cons c ds)
    then have "0 \<le> 10 * a0 + digit_val c"
      using isdigit_other(5) [of c] by simp
    then show ?case
      using Cons by simp
  qed
  then show ?thesis
    by (simp add: digits_val_def)
qed

lemma stoi_leading_number:
  assumes "ds \<noteq> []" and "\<forall>c\<in>set ds. isdigit c" and "rest = [] \<or> \<not> isdigit (hd rest)"
    and "digits_val ds \<le> 2147483647"
  shows "stoi (ds @ rest) = Inr (digits_val ds)"
proof -
  obtain c cs where ds: "ds = c # cs"
    using assms(1) by (cases ds) auto
  then have c: "isdigit c"
    using assms(2) by simp
  have start: "dropWhile isspace (ds @ rest) = ds @ rest"
    using isdigit_other(1) [OF c] by (simp add: ds)
  have "skip_sign (ds @ rest) = ds @ rest"
    using isdigit_other(2,3) [OF c] by (simp add: skip_sign_def ds)
  moreover have "takeWhile isdigit (ds @ rest) = ds"
    using assms(2,3) by (rule takeWhile_all)
  ultimately have digits: "leading_digits (ds @ rest) = ds"
    by (simp only: leading_digits_def start)
  have positive: "\<not> negative (ds @ rest)"
    using isdigit_other(2) [OF c] by (simp add: negative_def start) (simp add: ds)
  show ?thesis
    using assms(1,4) digits_val_nonneg [OF assms(2)]
    by (simp add: stoi_def digits positive Let_def)
qed

lemma convert_all_digits:
  assumes "\<forall>t\<in>set ts. t \<noteq> [] \<and> (\<forall>c\<in>set t. isdigit c) \<and> digits_val t \<le> 2147483647"
  shows "convert_all ts = Inr (map (\<lambda>t. word_of_int (digits_val t)) ts)"
  using assms
proof (induction ts)
  case Nil
  then show ?case by simp
next
  case (Cons t ts)
  then have "stoi (t @ []) = Inr (digits_val t)"
    by (intro stoi_leading_number) simp_all
  then show ?case
    using Cons by simp
qed

lemma convert_all_fails:
  assumes "\<forall>x\<in>set ts1. \<exists>n. stoi x = Inr n" and "stoi t = Inl e"
  shows "convert_all (ts1 @ t # ts2) = Inl e"
  using assms by (induction ts1) auto

lemma array_of_quoted_list:
  assumes \<open>\<forall>t\<in>set ts. CHR ''"'' \<notin> set t\<close>
  shows "stringArrayToUnsignedIntVector (quoted_list ts) = convert_all ts"
proof -
  have "array_loop (str (quoted_list ts)) [] []
          = (case convert_all ts of Inl e \<Rightarrow> Inl e | Inr vs \<Rightarrow> Inr ([] @ vs))"
    using assms by (intro array_loop_tokens) (simp_all add: str_def)
  then show ?thesis
    by (simp add: stringArrayToUnsignedIntVector_def split: sum.splits)
qed

text \<open>
  \<^verbatim>\<open>setAttribute\<close> catches nothing of what the conversion throws, and \<^verbatim>\<open>stoi\<close> throws
  \<^verbatim>\<open>std::invalid_argument\<close> without a leading number and \<^verbatim>\<open>std::out_of_range\<close> for a
  number outside \<^verbatim>\<open>int\<close>.
\<close>

lemma setAttribute_follows:
  "setAttribute u ''follows'' data
     = (case stringArrayToUnsignedIntVector data of
          Inl e \<Rightarrow> Inl e
        | Inr v \<Rightarrow> Inr (u\<lparr>follows := v\<rparr>))"
  by (simp add: setAttribute_def)

lemma stoi_invalid_argument: "stoi t = Inl InvalidArgument \<longleftrightarrow> leading_digits t = []"
  by (simp add: stoi_def Let_def)

lemma stoi_out_of_range:
  "stoi t = Inl OutOfRange \<longleftrightarrow>
     leading_digits t \<noteq> []
     \<and> (if negative t then 2147483648 < digits_val (leading_digits t)
        else 2147483647 < digits_val (leading_digits t))"
proof -
  have "\<forall>c\<in>set (leading_digits t). isdigit c"
    by (auto simp: leading_digits_def dest: set_takeWhileD)
  then have "0 \<le> digits_val (leading_digits t)"
    by (rule digits_val_nonneg)
  then show ?thesis
    by (auto simp: stoi_def Let_def)
qed

text \<open>
  The first attribute of a record that \<^verbatim>\<open>setAttribute\<close> refuses ends the loop of the
  stream constructor with that failure.
\<close>

lemma attributes_read_Cons:
  assumes "attributes_read ss = (title, data) # rest"
  shows "good ss \<and> fst (peek ss) \<noteq> Some (CHR 0x09)
         \<and> (\<exists>s2. read_attribute (snd (peek ss)) = Inr (title, data, s2)
                \<and> attributes_read (ignore1 s2) = rest)"
  using assms
  by (subst (asm) attributes_read.simps) (auto split: if_splits sum.splits prod.splits)

lemma attribute_loop_first_failure:
  assumes "attributes_read ss = pre @ (title, data) # post"
    and "\<forall>(t, d)\<in>set pre. \<forall>w. \<exists>v. setAttribute w t d = Inr v"
    and "\<And>w. setAttribute w title data = Inl e"
  shows "attribute_loop ss u = Inl e"
  using assms(1,2)
proof (induction pre arbitrary: ss u)
  case Nil
  then have "attributes_read ss = (title, data) # post"
    by simp
  from attributes_read_Cons [OF this] obtain s2 where
    entered: "good ss" "fst (peek ss) \<noteq> Some (CHR 0x09)"
    and r: "read_attribute (snd (peek ss)) = Inr (title, data, s2)"
    by blast
  have "attribute_step (snd (peek ss)) u = Inl e"
    by (simp add: attribute_step_read r assms(3))
  then show ?case
    using entered by (subst attribute_loop.simps) simp
next
  case (Cons p pre)
  obtain t d where p: "p = (t, d)"
    by (cases p)
  from Cons.prems(1) have "attributes_read ss = (t, d) # (pre @ (title, data) # post)"
    by (simp add: p)
  from attributes_read_Cons [OF this] obtain s2 where
    entered: "good ss" "fst (peek ss) \<noteq> Some (CHR 0x09)"
    and r: "read_attribute (snd (peek ss)) = Inr (t, d, s2)"
    and rest: "attributes_read (ignore1 s2) = pre @ (title, data) # post"
    by blast
  from Cons.prems(2) have "\<forall>w. \<exists>v. setAttribute w t d = Inr v"
    by (simp add: p)
  then obtain v where v: "setAttribute u t d = Inr v"
    by blast
  have "attribute_step (snd (peek ss)) u = Inr (ignore1 s2, v)"
    by (simp add: attribute_step_read r v)
  then have "attribute_loop ss u = attribute_loop (ignore1 s2) v"
    using entered by (subst attribute_loop.simps) simp
  also have "\<dots> = Inl e"
    using rest Cons.prems(2) by (intro Cons.IH) simp_all
  finally show ?case .
qed

text \<open>Nothing in the constructor of the network catches the failure of a record.\<close>

lemma ingest_loop_record_fails:
  assumes "fst (peek (inFS st)) \<noteq> Some (CHR '']'')"
    and "User_from_stream (uninit (length (users (net st))))
           (str (snd (getline (ignore (snd (peek (inFS st))) (CHR ''{'')) (userData st)
                        (CHR ''}''))))
         = Inl e"
  shows "ingest_loop uninit (Suc fuel) st = Some (Inl e)"
  using assms by (simp add: ingest_step_def case_prod_unfold)

lemma ingest_loop_rest_fails:
  assumes "fst (peek (inFS st)) \<noteq> Some (CHR '']'')"
    and "ingest_step uninit (st\<lparr>inFS := snd (peek (inFS st))\<rparr>) = Inr st'"
    and "ingest_loop uninit fuel st' = Some (Inl e)"
  shows "ingest_loop uninit (Suc fuel) st = Some (Inl e)"
  using assms by (simp add: case_prod_unfold)

lemma SocialNetwork_of_ingest_fails:
  assumes "ingest uninit fuel file = Some (Inl e)"
  shows "SocialNetwork_of std_sort uninit fuel file = Some (Inl e)"
  using assms by (simp add: SocialNetwork_of_def)

text \<open>
  C8, as the claim states it, fails twice. The substring \<open>12abc\<close> is not a number, yet
  \<^verbatim>\<open>stoi\<close> converts its leading digits and nothing fails. And a quoted substring is only
  reached when a comma or a quote comes right after the previous closing quote: after
  \<open>"1"\<close> and a space the loop ends, and \<open>"4"\<close> is never converted.
\<close>

theorem non_numeric_substring_accepted:
  \<open>\<not> isdigit (CHR ''a'')
   \<and> stringArrayToUnsignedIntVector ''"12abc"'' = Inr [12]
   \<and> stringArrayToUnsignedIntVector ''"1" ,"4"'' = Inr [1]\<close>
proof -
  have \<open>stringArrayToUnsignedIntVector ''"12abc"'' = Inr [12]\<close>
    by code_simp
  moreover have \<open>stringArrayToUnsignedIntVector ''"1" ,"4"'' = Inr [1]\<close>
    by code_simp
  moreover have "\<not> isdigit (CHR ''a'')"
    by (simp add: isdigit_def)
  ultimately show ?thesis
    by blast
qed

text \<open>
  C8, amended. An empty raw value gives an empty vector, which \<^verbatim>\<open>setAttribute\<close> stores.
  For a raw value of the expected form (substrings without a double quote inside, each
  between double quotes, separated by single commas) the function converts the
  substrings with \<^verbatim>\<open>stoi\<close> in the order of the input and appends each value narrowed to
  \<^verbatim>\<open>unsigned int\<close>; \<^verbatim>\<open>setAttribute\<close> stores the vector as the user's \<open>follows\<close>.
  Substrings of digits with values up to \<open>INT_MAX\<close> give their values. The first
  substring that \<^verbatim>\<open>stoi\<close> rejects ends the conversion and \<^verbatim>\<open>setAttribute\<close> with the
  exception of \<^verbatim>\<open>stoi\<close>: \<^verbatim>\<open>std::invalid_argument\<close> exactly when the substring has no
  leading number, \<^verbatim>\<open>std::out_of_range\<close> exactly when its leading number does not fit
  \<^verbatim>\<open>int\<close>. A substring that only starts with a number is converted as that number; what
  follows the digits is ignored. The failure aborts the run: when the attributes before
  the \<open>follows\<close> attribute of a record are accepted, the loop of the stream constructor
  and the constructor end with it; the turn of the reading loop whose record fails ends
  the reading loop with it, also after turns that succeeded; and the constructor of the
  network ends with the failure of its reading loop.
\<close>

theorem follows_array_converted:
  \<open>stringArrayToUnsignedIntVector [] = Inr []
   \<and> setAttribute u ''follows'' [] = Inr (u\<lparr>follows := []\<rparr>)
   \<and> ((\<forall>x\<in>set ts. CHR ''"'' \<notin> set x) \<longrightarrow>
        stringArrayToUnsignedIntVector (quoted_list ts) = convert_all ts
        \<and> setAttribute u ''follows'' (quoted_list ts)
            = (case convert_all ts of Inl e' \<Rightarrow> Inl e' | Inr v \<Rightarrow> Inr (u\<lparr>follows := v\<rparr>)))
   \<and> ((\<forall>x\<in>set ts. x \<noteq> [] \<and> (\<forall>c\<in>set x. isdigit c) \<and> digits_val x \<le> 2147483647) \<longrightarrow>
        stringArrayToUnsignedIntVector (quoted_list ts)
          = Inr (map (\<lambda>x. word_of_int (digits_val x)) ts)
        \<and> setAttribute u ''follows'' (quoted_list ts)
            = Inr (u\<lparr>follows := map (\<lambda>x. word_of_int (digits_val x)) ts\<rparr>))
   \<and> ((\<forall>x\<in>set (ts1 @ t # ts2). CHR ''"'' \<notin> set x)
        \<and> (\<forall>x\<in>set ts1. \<exists>n. stoi x = Inr n) \<and> stoi t = Inl e \<longrightarrow>
        stringArrayToUnsignedIntVector (quoted_list (ts1 @ t # ts2)) = Inl e
        \<and> setAttribute u ''follows'' (quoted_list (ts1 @ t # ts2)) = Inl e)
   \<and> (stoi t = Inl InvalidArgument \<longleftrightarrow> leading_digits t = [])
   \<and> (stoi t = Inl OutOfRange \<longleftrightarrow>
        leading_digits t \<noteq> []
        \<and> (if negative t then 2147483648 < digits_val (leading_digits t)
           else 2147483647 < digits_val (leading_digits t)))
   \<and> (ds \<noteq> [] \<and> (\<forall>c\<in>set ds. isdigit c) \<and> (rest = [] \<or> \<not> isdigit (hd rest))
        \<and> digits_val ds \<le> 2147483647 \<longrightarrow>
        stoi (ds @ rest) = Inr (digits_val ds))
   \<and> (attributes_read ss = pre @ (''follows'', data) # post
        \<and> (\<forall>(title, d)\<in>set pre. \<forall>w. \<exists>w'. setAttribute w title d = Inr w')
        \<and> stringArrayToUnsignedIntVector data = Inl e \<longrightarrow>
        attribute_loop ss u = Inl e \<and> User_from_stream id0 ss = Inl e)
   \<and> (fst (peek (inFS st)) \<noteq> Some (CHR '']'')
        \<and> User_from_stream (uninit (length (users (net st))))
             (str (snd (getline (ignore (snd (peek (inFS st))) (CHR ''{'')) (userData st)
                          (CHR ''}''))))
           = Inl e \<longrightarrow>
        ingest_loop uninit (Suc fuel) st = Some (Inl e))
   \<and> (fst (peek (inFS st)) \<noteq> Some (CHR '']'')
        \<and> ingest_step uninit (st\<lparr>inFS := snd (peek (inFS st))\<rparr>) = Inr st'
        \<and> ingest_loop uninit fuel st' = Some (Inl e) \<longrightarrow>
        ingest_loop uninit (Suc fuel) st = Some (Inl e))
   \<and> (ingest uninit fuel inp = Some (Inl e) \<longrightarrow>
        SocialNetwork_of std_sort uninit fuel inp = Some (Inl e))\<close>
proof -
  have empty: "stringArrayToUnsignedIntVector [] = Inr []"
    using array_of_quoted_list [of "[]"] by simp
  then have empty_set: "setAttribute u ''follows'' [] = Inr (u\<lparr>follows := []\<rparr>)"
    by (simp add: setAttribute_follows)
  have form: "stringArrayToUnsignedIntVector (quoted_list ts) = convert_all ts
      \<and> setAttribute u ''follows'' (quoted_list ts)
          = (case convert_all ts of Inl e' \<Rightarrow> Inl e' | Inr v \<Rightarrow> Inr (u\<lparr>follows := v\<rparr>))"
    if \<open>\<forall>x\<in>set ts. CHR ''"'' \<notin> set x\<close>
    using that by (simp add: setAttribute_follows array_of_quoted_list)
  have digits: "stringArrayToUnsignedIntVector (quoted_list ts)
        = Inr (map (\<lambda>x. word_of_int (digits_val x)) ts)
      \<and> setAttribute u ''follows'' (quoted_list ts)
          = Inr (u\<lparr>follows := map (\<lambda>x. word_of_int (digits_val x)) ts\<rparr>)"
    if *: "\<forall>x\<in>set ts. x \<noteq> [] \<and> (\<forall>c\<in>set x. isdigit c) \<and> digits_val x \<le> 2147483647"
  proof -
    have \<open>\<forall>x\<in>set ts. CHR ''"'' \<notin> set x\<close>
      using * isdigit_other(4) by blast
    then show ?thesis
      using convert_all_digits [OF *] by (simp add: setAttribute_follows array_of_quoted_list)
  qed
  have fails: "stringArrayToUnsignedIntVector (quoted_list (ts1 @ t # ts2)) = Inl e
      \<and> setAttribute u ''follows'' (quoted_list (ts1 @ t # ts2)) = Inl e"
    if \<open>\<forall>x\<in>set (ts1 @ t # ts2). CHR ''"'' \<notin> set x\<close>
      "\<forall>x\<in>set ts1. \<exists>n. stoi x = Inr n" "stoi t = Inl e"
    using convert_all_fails [OF that(2,3)] that(1)
    by (simp add: setAttribute_follows array_of_quoted_list)
  have in_record: "attribute_loop ss u = Inl e \<and> User_from_stream id0 ss = Inl e"
    if trace: "attributes_read ss = pre @ (''follows'', data) # post"
      and before: "\<forall>(title, d)\<in>set pre. \<forall>w. \<exists>w'. setAttribute w title d = Inr w'"
      and conversion: "stringArrayToUnsignedIntVector data = Inl e"
  proof -
    have "setAttribute w ''follows'' data = Inl e" for w
      by (simp add: setAttribute_follows conversion)
    then have "attribute_loop ss w = Inl e" for w
      by (rule attribute_loop_first_failure [OF trace before])
    then show ?thesis
      by (simp add: User_from_stream_def)
  qed
  show ?thesis
    apply (intro conjI)
    subgoal by (rule empty)
    subgoal by (rule empty_set)
    subgoal using form by blast
    subgoal using digits by blast
    subgoal using fails by blast
    subgoal by (rule stoi_invalid_argument)
    subgoal by (rule stoi_out_of_range)
    subgoal using stoi_leading_number [of ds rest] by blast
    subgoal using in_record by blast
    subgoal using ingest_loop_record_fails [of st uninit e fuel] by blast
    subgoal using ingest_loop_rest_fails [of st uninit st' fuel e] by blast
    subgoal using SocialNetwork_of_ingest_fails [of uninit fuel inp e std_sort] by blast
    done
qed

theorem follows_array_converted_witness:
  \<open>quoted_list [''1'', ''4''] = ''"1","4"''
   \<and> stringArrayToUnsignedIntVector [] = Inr []
   \<and> setAttribute User_default ''follows'' [] = Inr (User_default\<lparr>follows := []\<rparr>)
   \<and> stringArrayToUnsignedIntVector ''"1","4"'' = Inr [1, 4]
   \<and> setAttribute User_default ''follows'' ''"1","4"'' = Inr (User_default\<lparr>follows := [1, 4]\<rparr>)
   \<and> leading_digits ''x'' = []
   \<and> stoi ''x'' = Inl InvalidArgument
   \<and> stringArrayToUnsignedIntVector ''"1","x","4"'' = Inl InvalidArgument
   \<and> setAttribute User_default ''follows'' ''"1","x","4"'' = Inl InvalidArgument
   \<and> stoi ''99999999999'' = Inl OutOfRange
   \<and> stringArrayToUnsignedIntVector ''"99999999999"'' = Inl OutOfRange
   \<and> setAttribute User_default ''follows'' ''"99999999999"'' = Inl OutOfRange
   \<and> stoi (''12'' @ ''abc'') = Inr 12
   \<and> attributes_read (str letter_follows_record)
       = [(''id_str'', ''2''), (''name'', ''B'')] @ (''follows'', ''"1","x"'') # []
   \<and> stringArrayToUnsignedIntVector ''"1","x"'' = Inl InvalidArgument
   \<and> User_from_stream 0 (str letter_follows_record) = Inl InvalidArgument
   \<and> ingest (\<lambda>k. 0) (Suc 3) (Some huge_follows_text) = Some (Inl OutOfRange)
   \<and> SocialNetwork_of (sort_key id_of) (\<lambda>k. 0) (Suc 3) (Some huge_follows_text)
       = Some (Inl OutOfRange)
   \<and> ingest (\<lambda>k. 0) (Suc 3) (Some letter_follows_text) = Some (Inl InvalidArgument)
   \<and> SocialNetwork_of (sort_key id_of) (\<lambda>k. 0) (Suc 3) (Some letter_follows_text)
       = Some (Inl InvalidArgument)\<close>
proof -
  note converted = follows_array_converted
  have d: "digits_val ''1'' = 1" "digits_val ''4'' = 4" "digits_val ''12'' = 12"
    by (simp_all add: digits_val_def digit_val_def)
  have raw: \<open>quoted_list [''1'', ''4''] = ''"1","4"''\<close>
    \<open>quoted_list ([''1''] @ ''x'' # [''4'']) = ''"1","x","4"''\<close>
    \<open>quoted_list ([] @ ''99999999999'' # []) = ''"99999999999"''\<close>
    \<open>quoted_list ([''1''] @ ''x'' # []) = ''"1","x"''\<close>
    by simp_all
  have empty: "stringArrayToUnsignedIntVector [] = Inr []"
    "setAttribute User_default ''follows'' [] = Inr (User_default\<lparr>follows := []\<rparr>)"
    using converted [where u = User_default] by blast+
  have "\<forall>x\<in>set [''1'', ''4'']. x \<noteq> [] \<and> (\<forall>c\<in>set x. isdigit c) \<and> digits_val x \<le> 2147483647"
    by (simp add: isdigit_def d)
  with converted [where u = User_default and ts = "[''1'', ''4'']"]
  have "stringArrayToUnsignedIntVector (quoted_list [''1'', ''4''])
          = Inr (map (\<lambda>x. word_of_int (digits_val x)) [''1'', ''4''])
        \<and> setAttribute User_default ''follows'' (quoted_list [''1'', ''4''])
          = Inr (User_default\<lparr>follows := map (\<lambda>x. word_of_int (digits_val x)) [''1'', ''4'']\<rparr>)"
    by blast
  then have numbers: \<open>stringArrayToUnsignedIntVector ''"1","4"'' = Inr [1, 4]\<close>
    \<open>setAttribute User_default ''follows'' ''"1","4"'' = Inr (User_default\<lparr>follows := [1, 4]\<rparr>)\<close>
    by (simp_all add: d)
  have x: "leading_digits ''x'' = []"
    by code_simp
  with converted [where t = "''x''"] have stoi_x: "stoi ''x'' = Inl InvalidArgument"
    by blast
  have "stoi ''1'' = Inr 1"
    by code_simp
  then have before: "\<forall>x\<in>set [''1'']. \<exists>n. stoi x = Inr n"
    by simp
  have \<open>\<forall>x\<in>set ([''1''] @ ''x'' # [''4'']). CHR ''"'' \<notin> set x\<close>
    by simp
  with converted [where u = User_default and ?ts1.0 = "[''1'']" and t = "''x''"
                    and ?ts2.0 = "[''4'']" and e = InvalidArgument] before stoi_x
  have "stringArrayToUnsignedIntVector (quoted_list ([''1''] @ ''x'' # [''4''])) = Inl InvalidArgument
      \<and> setAttribute User_default ''follows'' (quoted_list ([''1''] @ ''x'' # [''4'']))
          = Inl InvalidArgument"
    by blast
  then have letter: \<open>stringArrayToUnsignedIntVector ''"1","x","4"'' = Inl InvalidArgument\<close>
    \<open>setAttribute User_default ''follows'' ''"1","x","4"'' = Inl InvalidArgument\<close>
    by (simp_all only: raw)
  have \<open>\<forall>x\<in>set ([''1''] @ ''x'' # []). CHR ''"'' \<notin> set x\<close>
    by simp
  with converted [where ?ts1.0 = "[''1'']" and t = "''x''" and ?ts2.0 = "[]"
                    and e = InvalidArgument] before stoi_x
  have "stringArrayToUnsignedIntVector (quoted_list ([''1''] @ ''x'' # [])) = Inl InvalidArgument"
    by blast
  then have last_letter: \<open>stringArrayToUnsignedIntVector ''"1","x"'' = Inl InvalidArgument\<close>
    by (simp only: raw)
  have "leading_digits ''99999999999'' = ''99999999999''" "\<not> negative ''99999999999''"
    "digits_val ''99999999999'' = 99999999999"
    by code_simp+
  then have "leading_digits ''99999999999'' \<noteq> []
      \<and> (if negative ''99999999999'' then 2147483648 < digits_val (leading_digits ''99999999999'')
         else 2147483647 < digits_val (leading_digits ''99999999999''))"
    by simp
  with converted [where t = "''99999999999''"] have stoi_huge: "stoi ''99999999999'' = Inl OutOfRange"
    by blast
  have \<open>\<forall>x\<in>set ([] @ ''99999999999'' # []). CHR ''"'' \<notin> set x\<close>
    by simp
  with converted [where u = User_default and ?ts1.0 = "[]" and t = "''99999999999''"
                    and ?ts2.0 = "[]" and e = OutOfRange] stoi_huge
  have "stringArrayToUnsignedIntVector (quoted_list ([] @ ''99999999999'' # [])) = Inl OutOfRange
      \<and> setAttribute User_default ''follows'' (quoted_list ([] @ ''99999999999'' # []))
          = Inl OutOfRange"
    by simp
  then have huge: \<open>stringArrayToUnsignedIntVector ''"99999999999"'' = Inl OutOfRange\<close>
    \<open>setAttribute User_default ''follows'' ''"99999999999"'' = Inl OutOfRange\<close>
    by (simp_all only: raw)
  have "''12'' \<noteq> [] \<and> (\<forall>c\<in>set ''12''. isdigit c) \<and> (''abc'' = [] \<or> \<not> isdigit (hd ''abc''))
      \<and> digits_val ''12'' \<le> 2147483647"
    by (simp add: isdigit_def d)
  with converted [where ds = "''12''" and rest = "''abc''"]
  have "stoi (''12'' @ ''abc'') = Inr (digits_val ''12'')"
    by blast
  then have prefix: "stoi (''12'' @ ''abc'') = Inr 12"
    by (simp only: d)
  have trace: \<open>attributes_read (str letter_follows_record)
      = [(''id_str'', ''2''), (''name'', ''B'')] @ (''follows'', ''"1","x"'') # []\<close>
    by code_simp
  have "stoi ''2'' = Inr 2"
    by code_simp
  then have accepted: "\<forall>(title, d)\<in>set [(''id_str'', ''2''), (''name'', ''B'')].
      \<forall>w. \<exists>w'. setAttribute w title d = Inr w'"
    by (simp add: setAttribute_def)
  from converted [where ss = "str letter_follows_record"
                    and pre = "[(''id_str'', ''2''), (''name'', ''B'')]"
                    and data = \<open>''"1","x"''\<close> and post = "[]" and e = InvalidArgument
                    and ?id0.0 = 0]
    trace accepted last_letter
  have user: "User_from_stream 0 (str letter_follows_record) = Inl InvalidArgument"
    by blast
  let ?start = "\<lambda>content.
      \<lparr>inFS = ignore (str content) (CHR ''[''), userData = [], userSortingNeeded = False,
       nextExpectedID = 1,
       net = \<lparr>numUsers = 0, followerRelationShips = [], users = [], userNames = []\<rparr>\<rparr>"
  have loop: "ingest (\<lambda>k. 0) fuel (Some content) = ingest_loop (\<lambda>k. 0) fuel (?start content)"
    for fuel content
    by (simp add: ingest_def)
  have "fst (peek (inFS (?start huge_follows_text))) \<noteq> Some (CHR '']'')"
    "User_from_stream ((\<lambda>k. 0) (length (users (net (?start huge_follows_text)))))
       (str (snd (getline (ignore (snd (peek (inFS (?start huge_follows_text)))) (CHR ''{''))
                    (userData (?start huge_follows_text)) (CHR ''}''))))
     = Inl OutOfRange"
    by code_simp+
  with converted [where st = "?start huge_follows_text" and uninit = "\<lambda>k. 0" and e = OutOfRange
                    and fuel = 3]
  have "ingest_loop (\<lambda>k. 0) (Suc 3) (?start huge_follows_text) = Some (Inl OutOfRange)"
    by blast
  then have huge_read: "ingest (\<lambda>k. 0) (Suc 3) (Some huge_follows_text) = Some (Inl OutOfRange)"
    by (simp only: loop)
  with converted [where uninit = "\<lambda>k. 0" and fuel = "Suc 3" and inp = "Some huge_follows_text"
                    and e = OutOfRange and std_sort = "sort_key id_of"]
  have huge_run: "SocialNetwork_of (sort_key id_of) (\<lambda>k. 0) (Suc 3) (Some huge_follows_text)
      = Some (Inl OutOfRange)"
    by blast
  let ?first = "ingest_step (\<lambda>k. 0)
      ((?start letter_follows_text)\<lparr>inFS := snd (peek (inFS (?start letter_follows_text)))\<rparr>)"
  have "fst (peek (inFS (?start letter_follows_text))) \<noteq> Some (CHR '']'')"
    "?first = Inr (projr ?first)"
    "ingest_loop (\<lambda>k. 0) 3 (projr ?first) = Some (Inl InvalidArgument)"
    by code_simp+
  with converted [where st = "?start letter_follows_text" and uninit = "\<lambda>k. 0"
                    and st' = "projr ?first" and e = InvalidArgument and fuel = 3]
  have "ingest_loop (\<lambda>k. 0) (Suc 3) (?start letter_follows_text) = Some (Inl InvalidArgument)"
    by blast
  then have letter_read:
    "ingest (\<lambda>k. 0) (Suc 3) (Some letter_follows_text) = Some (Inl InvalidArgument)"
    by (simp only: loop)
  with converted [where uninit = "\<lambda>k. 0" and fuel = "Suc 3" and inp = "Some letter_follows_text"
                    and e = InvalidArgument and std_sort = "sort_key id_of"]
  have letter_run: "SocialNetwork_of (sort_key id_of) (\<lambda>k. 0) (Suc 3) (Some letter_follows_text)
      = Some (Inl InvalidArgument)"
    by blast
  from raw(1) empty numbers x stoi_x letter stoi_huge huge prefix trace last_letter user
    huge_read huge_run letter_read letter_run
  show ?thesis
    by (intro conjI) assumption+
qed

end
